theory Spec2Isabelle
  imports Main
begin

section \<open>Download queue (the zustand store \<open>useDownloadStore\<close>)\<close>

text \<open>
  The store holds the task list and the active-task marker. Every action runs to its end
  on the single JavaScript thread; the only suspension point inside an action is the
  \<open>await\<close> of the transfer in \<open>startDownload\<close>. The model therefore splits
  \<open>startDownload\<close> in two: the part before the \<open>await\<close> (\<open>startDownload\<close>) and the part
  that runs when the transfer has settled (\<open>startDownload_settled\<close>: the rest of the
  \<open>try\<close>, the \<open>catch\<close> and the \<open>finally\<close>). The field \<open>inflight\<close> lists the calls of
  \<open>startDownload\<close> that are suspended at their \<open>await\<close>, and \<open>launched\<close> is the trace of
  the transfers that were requested, in the order of the requests.
\<close>

datatype task_status = pending | downloading | completed | failed

record TaskInfo =
  id' :: string
  bookId :: string
  bookTitle :: "string option"
  themeColor :: "string option"
  chapterId :: string
  title :: string
  chapterNum :: "int option"
  duration :: "int option"
  coverUrl :: "string option"

record DownloadTask = TaskInfo +
  status :: task_status
  progress :: int
  error :: "string option"
  timestamp :: int

record DownloadState =
  tasks :: "DownloadTask list"
  activeTaskId :: "string option"
  inflight :: "string list"
  launched :: "string list"

text \<open>The store as \<open>create\<close> builds it: no task, no active task.\<close>

definition initialState :: DownloadState where
  "initialState = \<lparr>tasks = [], activeTaskId = None, inflight = [], launched = []\<rparr>"

text \<open>JavaScript truthiness of a \<open>string | null\<close>: \<open>null\<close> and the empty string are falsy.\<close>

fun truthy :: "string option \<Rightarrow> bool" where
  "truthy None = False"
| "truthy (Some s) = (s \<noteq> [])"

definition completeTask :: "DownloadState \<Rightarrow> string \<Rightarrow> DownloadState" where
  "completeTask s taskId =
     s\<lparr>tasks := map (\<lambda>t. if id' t = taskId then t\<lparr>status := completed, progress := 100\<rparr> else t)
                     (tasks s)\<rparr>"

definition failTask :: "DownloadState \<Rightarrow> string \<Rightarrow> string \<Rightarrow> DownloadState" where
  "failTask s taskId err =
     s\<lparr>tasks := map (\<lambda>t. if id' t = taskId then t\<lparr>status := failed, error := Some err\<rparr> else t)
                     (tasks s)\<rparr>"

text \<open>
  \<open>startDownload\<close> up to its \<open>await\<close>: the marker is set first, then the task is looked
  up; without a task the marker is reset and nothing else happens; with one, every task of
  that id is marked \<open>downloading\<close> and the transfer is requested.
\<close>

definition startDownload :: "DownloadState \<Rightarrow> string \<Rightarrow> DownloadState" where
  "startDownload s taskId =
     (let s1 = s\<lparr>activeTaskId := Some taskId\<rparr> in
      case find (\<lambda>t. id' t = taskId) (tasks s1) of
        None \<Rightarrow> s1\<lparr>activeTaskId := None\<rparr>
      | Some task \<Rightarrow>
          s1\<lparr>tasks := map (\<lambda>t. if id' t = taskId then t\<lparr>status := downloading, error := None\<rparr> else t)
                          (tasks s1),
             inflight := inflight s1 @ [taskId],
             launched := launched s1 @ [taskId]\<rparr>)"

definition processQueue :: "DownloadState \<Rightarrow> DownloadState" where
  "processQueue s =
     (if truthy (activeTaskId s) then s
      else case find (\<lambda>t. status t = pending) (tasks s) of
             None \<Rightarrow> s
           | Some nextTask \<Rightarrow> startDownload s (id' nextTask))"

text \<open>
  How the awaited transfer ended: it resolved, or it threw; \<open>Rejected (Some m)\<close> is an
  \<open>Error\<close> with message \<open>m\<close>, \<open>Rejected None\<close> any other thrown value.
\<close>

datatype outcome = Resolved | Rejected "string option"

definition startDownload_settled :: "DownloadState \<Rightarrow> string \<Rightarrow> outcome \<Rightarrow> DownloadState" where
  "startDownload_settled s taskId out =
     (let s1 = (case out of
                  Resolved \<Rightarrow> completeTask s taskId
                | Rejected m \<Rightarrow>
                    failTask s taskId (case m of Some message \<Rightarrow> message | None \<Rightarrow> ''Download failed''));
          s2 = s1\<lparr>activeTaskId := None, inflight := remove1 taskId (inflight s1)\<rparr>
      in processQueue s2)"

definition retryTask :: "DownloadState \<Rightarrow> string \<Rightarrow> DownloadState" where
  "retryTask s taskId =
     processQueue
       (s\<lparr>tasks := map (\<lambda>t. if id' t = taskId then t\<lparr>status := pending, progress := 0, error := None\<rparr>
                             else t) (tasks s)\<rparr>)"

text \<open>\<open>addTask\<close>; \<open>now\<close> is the value of \<open>Date.now()\<close>.\<close>

definition addTask :: "DownloadState \<Rightarrow> TaskInfo \<Rightarrow> int \<Rightarrow> DownloadState" where
  "addTask s taskInfo now =
     (if find (\<lambda>t. id' t = id' taskInfo \<and> status t \<noteq> failed) (tasks s) \<noteq> None then s
      else if find (\<lambda>t. id' t = id' taskInfo \<and> status t = failed) (tasks s) \<noteq> None
           then retryTask s (id' taskInfo)
      else
        let newTask = \<lparr>id' = id' taskInfo, bookId = bookId taskInfo, bookTitle = bookTitle taskInfo,
                       themeColor = themeColor taskInfo, chapterId = chapterId taskInfo,
                       title = title taskInfo, chapterNum = chapterNum taskInfo,
                       duration = duration taskInfo, coverUrl = coverUrl taskInfo,
                       status = pending, progress = 0, error = None, timestamp = now\<rparr>
        in processQueue (s\<lparr>tasks := newTask # tasks s\<rparr>))"

definition initializeQueue :: "DownloadState \<Rightarrow> DownloadState" where
  "initializeQueue s =
     processQueue
       (s\<lparr>tasks := map (\<lambda>t. if status t = downloading then t\<lparr>status := pending\<rparr> else t) (tasks s),
          activeTaskId := None\<rparr>)"

text \<open>
  What can happen to the store: a caller adds a task, or a suspended \<open>startDownload\<close> is
  resumed because its transfer settled.
\<close>

datatype event = AddTask TaskInfo int | Settle string outcome

fun step :: "DownloadState \<Rightarrow> event \<Rightarrow> DownloadState" where
  "step s (AddTask taskInfo now) = addTask s taskInfo now"
| "step s (Settle taskId out) =
     (if taskId \<in> set (inflight s) then startDownload_settled s taskId out else s)"

definition run :: "DownloadState \<Rightarrow> event list \<Rightarrow> DownloadState" where
  "run = foldl step"

definition downloading_tasks :: "DownloadState \<Rightarrow> DownloadTask list" where
  "downloading_tasks s = filter (\<lambda>t. status t = downloading) (tasks s)"

text \<open>
  With no caller active, the only thing that can happen to the store is that the transfer
  in flight settles. \<open>settle_all\<close> resumes the suspended \<open>startDownload\<close> once for each
  outcome of the list, and stops when nothing is in flight.
\<close>

fun settle_all :: "DownloadState \<Rightarrow> outcome list \<Rightarrow> DownloadState" where
  "settle_all s [] = s"
| "settle_all s (out # outs) =
     (case inflight s of
        [] \<Rightarrow> s
      | taskId # _ \<Rightarrow> settle_all (step s (Settle taskId out)) outs)"

definition status_of :: "DownloadState \<Rightarrow> string \<Rightarrow> task_status option" where
  "status_of s taskId = map_option status (find (\<lambda>t. id' t = taskId) (tasks s))"

text \<open>The number of pending tasks that \<open>find\<close> meets before the task \<open>taskId\<close>.\<close>

definition pending_before :: "string \<Rightarrow> DownloadTask list \<Rightarrow> nat" where
  "pending_before taskId ts =
     length (filter (\<lambda>u. status u = pending) (takeWhile (\<lambda>u. id' u \<noteq> taskId) ts))"

text \<open>
  What the store keeps true as long as no task id is the empty string: ids are distinct
  and not empty, and a task is \<open>downloading\<close> only while the marker names it and its
  transfer is the one in flight.
\<close>

definition queue_inv :: "DownloadState \<Rightarrow> bool" where
  "queue_inv s \<longleftrightarrow>
     distinct (map id' (tasks s)) \<and> (\<forall>t\<in>set (tasks s). id' t \<noteq> []) \<and>
     (case activeTaskId s of
        None \<Rightarrow> inflight s = [] \<and> (\<forall>t\<in>set (tasks s). status t \<noteq> downloading)
      | Some a \<Rightarrow> a \<noteq> [] \<and> inflight s = [a] \<and>
                 (\<forall>t\<in>set (tasks s). status t = downloading \<longrightarrow> id' t = a))"

fun nonempty_id :: "event \<Rightarrow> bool" where
  "nonempty_id (AddTask taskInfo now) = (id' taskInfo \<noteq> [])"
| "nonempty_id (Settle taskId out) = True"

text \<open>Descriptors and persisted tasks for the examples: \<open>id == chapterId\<close>.\<close>

definition descriptor :: "string \<Rightarrow> TaskInfo" where
  "descriptor c = \<lparr>id' = c, bookId = ''book'', bookTitle = None, themeColor = None,
                    chapterId = c, title = c, chapterNum = None, duration = None,
                    coverUrl = None\<rparr>"

definition persisted :: "string \<Rightarrow> task_status \<Rightarrow> DownloadTask" where
  "persisted c st = \<lparr>id' = c, bookId = ''book'', bookTitle = None, themeColor = None,
                      chapterId = c, title = c, chapterNum = None, duration = None,
                      coverUrl = None, status = st, progress = 0, error = None,
                      timestamp = 0\<rparr>"

text \<open>A task list as a killed process leaves it: the transfer of T2 was running.\<close>

definition restart_state :: DownloadState where
  "restart_state = \<lparr>tasks = [persisted ''T3'' pending, persisted ''T2'' downloading,
                              persisted ''T1'' completed],
                     activeTaskId = None, inflight = [], launched = []\<rparr>"

section \<open>The platform: Capacitor's Filesystem and Http plugins\<close>

text \<open>
  The cache manager works on one flat directory (\<open>media_cache\<close> in \<open>Directory.External\<close>)
  through asynchronous plugin calls, each of which resolves or rejects. The world is the
  list of the files of that directory, in the order in which \<open>readdir\<close> lists them, and
  the trace of the plugin calls made so far. A path \<open>${CACHE_DIR}/${fileName}\<close> addresses
  the entry named \<open>fileName\<close>. The size that \<open>stat\<close> reports is the length of the data.
  Sizes, times and offsets are integers, on which JavaScript's numbers are exact below
  \<open>2^53\<close>.
\<close>

record cfile =
  fname :: string
  fmtime :: int
  fdata :: string

definition fsize :: "cfile \<Rightarrow> int" where
  "fsize f = int (length (fdata f))"

datatype call =
    Readdir
  | Mkdir
  | Stat string
  | DeleteFile string
  | WriteFile string string
  | AppendFile string string
  | Rename string string
  | GetUri string
  | HttpHead string
  | HttpGet string "(int \<times> int) option"
  | LaunchEnsureCacheLimits

record world =
  entries :: "cfile list"
  calls :: "call list"

text \<open>
  What a rejected call throws: \<open>IOError\<close> when the platform rejects the call, \<open>NotFound\<close>
  when the file does not exist, \<open>TransportError\<close> when the HTTP plugin rejects, and the two
  errors that \<open>downloadToCache\<close> constructs itself from a response status.
\<close>

datatype error =
    IOError
  | NotFound
  | TransportError
  | ChunkFailed int
  | WholeFailed int

record http_response =
  rstatus :: int
  rdata :: string

text \<open>
  The environment fixes what the code cannot control: which plugin calls the platform
  rejects (\<open>faults e n c\<close>: the call \<open>c\<close>, made as the \<open>n\<close>-th call of the trace, is
  rejected), the clock, the URI that the platform gives the file of a name, and the
  servers, by URL. \<open>head_total\<close> is the
  value of \<open>parseInt(contentLength || '0')\<close> for the answer to the HEAD request, \<open>None\<close>
  for \<open>NaN\<close>; \<open>get_whole\<close> answers a GET without a \<open>Range\<close> header, \<open>get_range\<close> a GET
  with the header \<open>Range: bytes=start-stop\<close>.
\<close>

record env =
  faults :: "nat \<Rightarrow> call \<Rightarrow> bool"
  clock :: "nat \<Rightarrow> int"
  uri_of :: "string \<Rightarrow> string"
  head_total :: "string \<Rightarrow> error + int option"
  get_whole :: "string \<Rightarrow> error + http_response"
  get_range :: "string \<Rightarrow> int \<Rightarrow> int \<Rightarrow> error + http_response"

definition plugin :: "env \<Rightarrow> world \<Rightarrow> call \<Rightarrow> bool \<times> world" where
  "plugin e w c = (faults e (length (calls w)) c, w\<lparr>calls := calls w @ [c]\<rparr>)"

definition lookup :: "world \<Rightarrow> string \<Rightarrow> cfile option" where
  "lookup w p = find (\<lambda>f. fname f = p) (entries w)"

record StatResult =
  size' :: int
  mtime :: int
  uri :: string

definition readdir :: "env \<Rightarrow> world \<Rightarrow> (error + string list) \<times> world" where
  "readdir e w =
     (let (rejected, w1) = plugin e w Readdir in
      if rejected then (Inl IOError, w1) else (Inr (map fname (entries w1)), w1))"

definition mkdir :: "env \<Rightarrow> world \<Rightarrow> (error + unit) \<times> world" where
  "mkdir e w =
     (let (rejected, w1) = plugin e w Mkdir in
      if rejected then (Inl IOError, w1) else (Inr (), w1))"

definition stat :: "env \<Rightarrow> world \<Rightarrow> string \<Rightarrow> (error + StatResult) \<times> world" where
  "stat e w p =
     (let (rejected, w1) = plugin e w (Stat p) in
      if rejected then (Inl IOError, w1)
      else case lookup w1 p of
             None \<Rightarrow> (Inl NotFound, w1)
           | Some f \<Rightarrow> (Inr \<lparr>size' = fsize f, mtime = fmtime f, uri = uri_of e p\<rparr>, w1))"

definition deleteFile :: "env \<Rightarrow> world \<Rightarrow> string \<Rightarrow> (error + unit) \<times> world" where
  "deleteFile e w p =
     (let (rejected, w1) = plugin e w (DeleteFile p) in
      if rejected then (Inl IOError, w1)
      else if lookup w1 p = None then (Inl NotFound, w1)
      else (Inr (), w1\<lparr>entries := filter (\<lambda>f. fname f \<noteq> p) (entries w1)\<rparr>))"

text \<open>A written file replaces the entry of its name, or is listed last when it is new.\<close>

definition put :: "cfile \<Rightarrow> cfile list \<Rightarrow> cfile list" where
  "put f fs =
     (if find (\<lambda>g. fname g = fname f) fs = None then fs @ [f]
      else map (\<lambda>g. if fname g = fname f then f else g) fs)"

definition writeFile :: "env \<Rightarrow> world \<Rightarrow> string \<Rightarrow> string \<Rightarrow> (error + unit) \<times> world" where
  "writeFile e w p d =
     (let (rejected, w1) = plugin e w (WriteFile p d) in
      if rejected then (Inl IOError, w1)
      else (Inr (), w1\<lparr>entries := put \<lparr>fname = p, fmtime = clock e (length (calls w)), fdata = d\<rparr>
                                        (entries w1)\<rparr>))"

definition appendFile :: "env \<Rightarrow> world \<Rightarrow> string \<Rightarrow> string \<Rightarrow> (error + unit) \<times> world" where
  "appendFile e w p d =
     (let (rejected, w1) = plugin e w (AppendFile p d) in
      if rejected then (Inl IOError, w1)
      else (Inr (),
            w1\<lparr>entries :=
                  put \<lparr>fname = p, fmtime = clock e (length (calls w)),
                       fdata = (case lookup w1 p of None \<Rightarrow> [] | Some f \<Rightarrow> fdata f) @ d\<rparr>
                      (entries w1)\<rparr>))"

text \<open>\<open>rename\<close> is atomic: rejected, it changes nothing; resolved, the target is replaced.\<close>

definition rename :: "env \<Rightarrow> world \<Rightarrow> string \<Rightarrow> string \<Rightarrow> (error + unit) \<times> world" where
  "rename e w src dst =
     (let (rejected, w1) = plugin e w (Rename src dst) in
      if rejected then (Inl IOError, w1)
      else if lookup w1 src = None then (Inl NotFound, w1)
      else (Inr (),
            w1\<lparr>entries := map (\<lambda>f. if fname f = src then f\<lparr>fname := dst\<rparr> else f)
                                (filter (\<lambda>f. fname f \<noteq> dst) (entries w1))\<rparr>))"

definition getUri :: "env \<Rightarrow> world \<Rightarrow> string \<Rightarrow> (error + string) \<times> world" where
  "getUri e w p =
     (let (rejected, w1) = plugin e w (GetUri p) in
      if rejected then (Inl IOError, w1) else (Inr (uri_of e p), w1))"

definition http_head :: "env \<Rightarrow> world \<Rightarrow> string \<Rightarrow> (error + int option) \<times> world" where
  "http_head e w url = (head_total e url, w\<lparr>calls := calls w @ [HttpHead url]\<rparr>)"

definition http_get ::
  "env \<Rightarrow> world \<Rightarrow> string \<Rightarrow> (int \<times> int) option \<Rightarrow> (error + http_response) \<times> world" where
  "http_get e w url byte_range =
     ((case byte_range of
         None \<Rightarrow> get_whole e url
       | Some (start, stop) \<Rightarrow> get_range e url start stop),
      w\<lparr>calls := calls w @ [HttpGet url byte_range]\<rparr>)"

section \<open>Cache store (\<open>mobileCacheManager\<close>)\<close>

definition MAX_CACHE_SIZE_BYTES :: int where
  "MAX_CACHE_SIZE_BYTES = 2 * 1024 * 1024 * 1024"

definition MAX_FILES :: nat where
  "MAX_FILES = 50"

text \<open>\<open>interface ExtendedFileInfo extends FileInfo { name: string }\<close>\<close>

record ExtendedFileInfo = StatResult +
  name :: string

record CacheStats =
  stats_size :: int
  stats_files :: "ExtendedFileInfo list"

text \<open>\<open>s.endsWith(suffix)\<close>\<close>

definition endsWith :: "string \<Rightarrow> string \<Rightarrow> bool" where
  "endsWith s suffix = (take (length suffix) (rev s) = rev suffix)"

subsection \<open>\<open>getCachedFile\<close>\<close>

definition getCachedFile :: "env \<Rightarrow> world \<Rightarrow> string \<Rightarrow> string option \<times> world" where
  "getCachedFile e w fileName =
     (case stat e w fileName of
        (Inl _, w1) \<Rightarrow> (None, w1)
      | (Inr st, w1) \<Rightarrow>
          if size' st = 0
          then (case deleteFile e w1 fileName of (_, w2) \<Rightarrow> (None, w2))
          else (Some (uri st), w1))"

subsection \<open>\<open>getCacheStats\<close>\<close>

text \<open>
  The loop over the directory listing: temp files are skipped, a file whose \<open>stat\<close> is
  rejected is skipped with a warning, every other file is pushed onto \<open>validFiles\<close> and
  counted into \<open>totalSize\<close>.
\<close>

fun stat_files :: "env \<Rightarrow> string list \<Rightarrow> world \<Rightarrow> CacheStats \<Rightarrow> CacheStats \<times> world" where
  "stat_files e [] w acc = (acc, w)"
| "stat_files e (n # ns) w acc =
     (if endsWith n ''.tmp'' then stat_files e ns w acc
      else case stat e w n of
             (Inl _, w1) \<Rightarrow> stat_files e ns w1 acc
           | (Inr st, w1) \<Rightarrow>
               stat_files e ns w1
                 \<lparr>stats_size = stats_size acc + size' st,
                  stats_files = stats_files acc @
                    [\<lparr>size' = size' st, mtime = mtime st, uri = uri st, name = n\<rparr>]\<rparr>)"

definition getCacheStats :: "env \<Rightarrow> world \<Rightarrow> CacheStats \<times> world" where
  "getCacheStats e w =
     (case readdir e w of
        (Inl _, w1) \<Rightarrow> (case mkdir e w1 of (_, w2) \<Rightarrow> (\<lparr>stats_size = 0, stats_files = []\<rparr>, w2))
      | (Inr _, w1) \<Rightarrow>
          (case readdir e w1 of
             (Inl _, w2) \<Rightarrow> (\<lparr>stats_size = 0, stats_files = []\<rparr>, w2)
           | (Inr names, w2) \<Rightarrow> stat_files e names w2 \<lparr>stats_size = 0, stats_files = []\<rparr>))"

subsection \<open>\<open>ensureCacheLimits\<close>\<close>

text \<open>The second pass: the loop that stops at \<open>currentSize <= MAX_CACHE_SIZE_BYTES\<close>.\<close>

fun select_by_size :: "ExtendedFileInfo list \<Rightarrow> int \<Rightarrow> ExtendedFileInfo list" where
  "select_by_size [] currentSize = []"
| "select_by_size (file # files) currentSize =
     (if currentSize \<le> MAX_CACHE_SIZE_BYTES then []
      else file # select_by_size files (currentSize - size' file))"

text \<open>
  The files chosen for deletion, from the statistics: the list is sorted by \<open>mtime\<close>
  (\<open>Array.prototype.sort\<close> is stable, as \<open>sort_key\<close> is), the first pass splices the
  oldest \<open>files.length - MAX_FILES\<close> entries off, the second pass goes through what is
  left.
\<close>

definition filesToDelete :: "CacheStats \<Rightarrow> ExtendedFileInfo list" where
  "filesToDelete stats =
     (let files = sort_key mtime (stats_files stats);
          countToDelete = (if length files > MAX_FILES then length files - MAX_FILES else 0);
          deletedByCount = take countToDelete files;
          files' = drop countToDelete files;
          currentSize = stats_size stats - sum_list (map size' deletedByCount)
      in deletedByCount @ select_by_size files' currentSize)"

text \<open>The deletion loop: the first rejected \<open>deleteFile\<close> throws out of it.\<close>

fun delete_each :: "env \<Rightarrow> string list \<Rightarrow> world \<Rightarrow> (error + unit) \<times> world" where
  "delete_each e [] w = (Inr (), w)"
| "delete_each e (n # ns) w =
     (case deleteFile e w n of
        (Inl err, w1) \<Rightarrow> (Inl err, w1)
      | (Inr _, w1) \<Rightarrow> delete_each e ns w1)"

text \<open>
  \<open>ensureCacheLimits\<close> never rejects. What it reports is what it writes to the console:
  nothing when the limits hold, the number of deleted files, or the error that its
  \<open>catch\<close> logged as \<open>Cache cleanup failed\<close>.
\<close>

datatype cleanup = WithinLimits | Deleted nat | CleanupFailed error

definition ensureCacheLimits :: "env \<Rightarrow> world \<Rightarrow> cleanup \<times> world" where
  "ensureCacheLimits e w =
     (case getCacheStats e w of
        (stats, w1) \<Rightarrow>
          if stats_size stats > MAX_CACHE_SIZE_BYTES \<or> length (stats_files stats) > MAX_FILES
          then (case delete_each e (map name (filesToDelete stats)) w1 of
                  (Inl err, w2) \<Rightarrow> (CleanupFailed err, w2)
                | (Inr _, w2) \<Rightarrow> (Deleted (length (filesToDelete stats)), w2))
          else (WithinLimits, w1))"

text \<open>The entry that \<open>getCacheStats\<close> pushes onto \<open>validFiles\<close> for a file.\<close>

definition info :: "env \<Rightarrow> cfile \<Rightarrow> ExtendedFileInfo" where
  "info e f = \<lparr>size' = fsize f, mtime = fmtime f, uri = uri_of e (fname f), name = fname f\<rparr>"

text \<open>The cached files: the entries that are not temp files, and their total size.\<close>

definition cached :: "world \<Rightarrow> cfile list" where
  "cached w = filter (\<lambda>f. \<not> endsWith (fname f) ''.tmp'') (entries w)"

definition cached_size :: "world \<Rightarrow> int" where
  "cached_size w = sum_list (map fsize (cached w))"

text \<open>Environments in which the platform rejects no listing, no \<open>stat\<close>, no deletion.\<close>

definition reads_succeed :: "env \<Rightarrow> bool" where
  "reads_succeed e \<longleftrightarrow> (\<forall>n. \<not> faults e n Readdir) \<and> (\<forall>n p. \<not> faults e n (Stat p))"

definition deletes_succeed :: "env \<Rightarrow> bool" where
  "deletes_succeed e \<longleftrightarrow> (\<forall>n p. \<not> faults e n (DeleteFile p))"

section \<open>Chunked downloader (\<open>downloadToCache\<close>)\<close>

definition CHUNK_SIZE :: int where
  "CHUNK_SIZE = 1024 * 1024"

text \<open>\<open>totalSize > 0 && totalSize > 50 * 1024 * 1024\<close>, false for \<open>NaN\<close>.\<close>

fun large :: "int option \<Rightarrow> bool" where
  "large None = False"
| "large (Some totalSize) = (totalSize > 0 \<and> totalSize > 50 * 1024 * 1024)"

text \<open>
  The \<open>while (offset < totalSize)\<close> loop: one ranged GET for each chunk, an error for a
  status of 400 or more, \<open>writeFile\<close> for the chunk at offset 0 and \<open>appendFile\<close> for the
  others. Every \<open>await\<close> that rejects throws out of the loop.
\<close>

function chunk_loop ::
  "env \<Rightarrow> string \<Rightarrow> string \<Rightarrow> int \<Rightarrow> int \<Rightarrow> world \<Rightarrow> (error + unit) \<times> world" where
  "chunk_loop e url tempFileName totalSize offset w =
     (if offset < totalSize then
        (case http_get e w url (Some (offset, min (offset + CHUNK_SIZE - 1) (totalSize - 1))) of
           (Inl err, w1) \<Rightarrow> (Inl err, w1)
         | (Inr response, w1) \<Rightarrow>
             if rstatus response \<ge> 400 then (Inl (ChunkFailed (rstatus response)), w1)
             else (case (if offset = 0 then writeFile e w1 tempFileName (rdata response)
                         else appendFile e w1 tempFileName (rdata response)) of
                     (Inl err, w2) \<Rightarrow> (Inl err, w2)
                   | (Inr _, w2) \<Rightarrow>
                       chunk_loop e url tempFileName totalSize (offset + CHUNK_SIZE) w2))
      else (Inr (), w))"
  by pat_completeness auto
termination
  by (relation "measure (\<lambda>(e, url, tempFileName, totalSize, offset, w). nat (totalSize - offset))")
     (auto simp: CHUNK_SIZE_def)

text \<open>The single transfer of the \<open>else\<close> branch: any status other than 200 is an error.\<close>

definition whole_transfer :: "env \<Rightarrow> string \<Rightarrow> string \<Rightarrow> world \<Rightarrow> (error + unit) \<times> world" where
  "whole_transfer e url tempFileName w =
     (case http_get e w url None of
        (Inl err, w1) \<Rightarrow> (Inl err, w1)
      | (Inr response, w1) \<Rightarrow>
          if rstatus response \<noteq> 200 then (Inl (WholeFailed (rstatus response)), w1)
          else writeFile e w1 tempFileName (rdata response))"

text \<open>\<open>Ensure dir exists\<close>: \<open>mkdir\<close> when \<open>readdir\<close> rejects.\<close>

definition ensure_dir :: "env \<Rightarrow> world \<Rightarrow> (error + unit) \<times> world" where
  "ensure_dir e w =
     (case readdir e w of
        (Inl _, w1) \<Rightarrow> mkdir e w1
      | (Inr _, w1) \<Rightarrow> (Inr (), w1))"

text \<open>
  The HEAD request, the removal of a stale temp file (its rejection is swallowed), and
  the transfer into the temp file, chunked or whole.
\<close>

definition transfer :: "env \<Rightarrow> string \<Rightarrow> string \<Rightarrow> world \<Rightarrow> (error + unit) \<times> world" where
  "transfer e url tempFileName w =
     (case http_head e w url of
        (Inl err, w1) \<Rightarrow> (Inl err, w1)
      | (Inr totalSize, w1) \<Rightarrow>
          (case deleteFile e w1 tempFileName of
             (_, w2) \<Rightarrow>
               if large totalSize
               then chunk_loop e url tempFileName (the totalSize) 0 w2
               else whole_transfer e url tempFileName w2))"

text \<open>
  The atomic rename, the launch of \<open>ensureCacheLimits\<close> (not awaited: the pass is a
  transition of its own, and only its launch is recorded here), and \<open>getUri\<close>.
\<close>

definition promote :: "env \<Rightarrow> string \<Rightarrow> string \<Rightarrow> world \<Rightarrow> (error + string) \<times> world" where
  "promote e tempFileName fileName w =
     (case rename e w tempFileName fileName of
        (Inl err, w1) \<Rightarrow> (Inl err, w1)
      | (Inr _, w1) \<Rightarrow> getUri e (w1\<lparr>calls := calls w1 @ [LaunchEnsureCacheLimits]\<rparr>) fileName)"

text \<open>The \<open>try\<close> block of \<open>downloadToCache\<close>.\<close>

definition download_try :: "env \<Rightarrow> world \<Rightarrow> string \<Rightarrow> string \<Rightarrow> (error + string) \<times> world" where
  "download_try e w url fileName =
     (case ensure_dir e w of
        (Inl err, w1) \<Rightarrow> (Inl err, w1)
      | (Inr _, w1) \<Rightarrow>
          (case transfer e url (fileName @ ''.tmp'') w1 of
             (Inl err, w2) \<Rightarrow> (Inl err, w2)
           | (Inr _, w2) \<Rightarrow> promote e (fileName @ ''.tmp'') fileName w2))"

text \<open>
  \<open>downloadToCache\<close>: the \<open>catch\<close> deletes the temp file, swallowing a rejection, and
  throws the error again. (\<open>activeDownloads\<close> is used for logging only.)
\<close>

definition downloadToCache :: "env \<Rightarrow> world \<Rightarrow> string \<Rightarrow> string \<Rightarrow> (error + string) \<times> world" where
  "downloadToCache e w url fileName =
     (case download_try e w url fileName of
        (Inr u, w1) \<Rightarrow> (Inr u, w1)
      | (Inl err, w1) \<Rightarrow>
          (case deleteFile e w1 (fileName @ ''.tmp'') of (_, w2) \<Rightarrow> (Inl err, w2)))"

text \<open>
  The byte ranges that the loop requests for a total size, from an offset on, and the
  data that the server sends for a range.
\<close>

function chunk_ranges :: "int \<Rightarrow> int \<Rightarrow> (int \<times> int) list" where
  "chunk_ranges totalSize offset =
     (if offset < totalSize
      then (offset, min (offset + CHUNK_SIZE - 1) (totalSize - 1))
           # chunk_ranges totalSize (offset + CHUNK_SIZE)
      else [])"
  by pat_completeness auto
termination
  by (relation "measure (\<lambda>(totalSize, offset). nat (totalSize - offset))")
     (auto simp: CHUNK_SIZE_def)






text \<open>A range that the server answers with a status below 400.\<close>

definition served :: "env \<Rightarrow> string \<Rightarrow> int \<times> int \<Rightarrow> bool" where
  "served e url r =
     (case get_range e url (fst r) (snd r) of Inl _ \<Rightarrow> False | Inr response \<Rightarrow> rstatus response < 400)"




section \<open>Failing steps of a download\<close>


text \<open>
  The call \<open>c\<close>, made as the \<open>k\<close>-th call of the trace, is a failing step of
  \<open>downloadToCache\<close>: a request that fails or whose status the code refuses, or a plugin
  call that the platform rejects. Three calls are no steps that can fail: \<open>readdir\<close>
  (its rejection leads to \<open>mkdir\<close>), \<open>deleteFile\<close> (its rejection is swallowed, before
  the transfer and in the \<open>catch\<close>) and the launch of \<open>ensureCacheLimits\<close> (not awaited,
  with a \<open>catch\<close> of its own).
\<close>

fun failed_call :: "env \<Rightarrow> nat \<Rightarrow> call \<Rightarrow> bool" where
  "failed_call e k Readdir = False"
| "failed_call e k (DeleteFile p) = False"
| "failed_call e k LaunchEnsureCacheLimits = False"
| "failed_call e k (HttpHead u) = (case head_total e u of Inl _ \<Rightarrow> True | Inr _ \<Rightarrow> False)"
| "failed_call e k (HttpGet u None) =
     (case get_whole e u of Inl _ \<Rightarrow> True | Inr response \<Rightarrow> rstatus response \<noteq> 200)"
| "failed_call e k (HttpGet u (Some r)) = (\<not> served e u r)"
| "failed_call e k c = faults e k c"

text \<open>Some call of the trace \<open>cs\<close>, at a position from \<open>start\<close> on, is a failing step.\<close>

definition step_failed :: "env \<Rightarrow> nat \<Rightarrow> call list \<Rightarrow> bool" where
  "step_failed e start cs \<longleftrightarrow> (\<exists>k\<in>{start..<length cs}. failed_call e k (cs ! k))"


text \<open>No step has failed from \<open>start\<close> on.\<close>

definition sound :: "env \<Rightarrow> nat \<Rightarrow> world \<Rightarrow> bool" where
  "sound e start w \<longleftrightarrow> start \<le> length (calls w) \<and> \<not> step_failed e start (calls w)"

section \<open>Example environments and caches\<close>

text \<open>A file content of \<open>n\<close> bytes.\<close>

definition blob :: "nat \<Rightarrow> string" where
  "blob n = replicate n CHR ''x''"

definition quiet :: env where
  "quiet = \<lparr>faults = (\<lambda>n c. False), clock = int, uri_of = (\<lambda>p. ''file:///media_cache/'' @ p),
            head_total = (\<lambda>url. Inr (Some 0)),
            get_whole = (\<lambda>url. Inr \<lparr>rstatus = 200, rdata = ''abc''\<rparr>),
            get_range = (\<lambda>url a b. Inl TransportError)\<rparr>"

definition chapter_file :: "nat \<Rightarrow> string" where
  "chapter_file i = replicate i CHR ''c'' @ ''.mp3''"

definition cache51 :: world where
  "cache51 = \<lparr>entries = map (\<lambda>i. \<lparr>fname = chapter_file i, fmtime = int i, fdata = blob 1048576\<rparr>) [0..<51],
              calls = []\<rparr>"

definition cache3 :: world where
  "cache3 = \<lparr>entries = [\<lparr>fname = ''b.mp3'', fmtime = 2, fdata = blob 2147483648\<rparr>,
                         \<lparr>fname = ''a.mp3'', fmtime = 1, fdata = blob 2147483648\<rparr>,
                         \<lparr>fname = ''c.mp3'', fmtime = 3, fdata = blob 1073741824\<rparr>,
                         \<lparr>fname = ''d.mp3.tmp'', fmtime = 4, fdata = blob 5\<rparr>],
             calls = []\<rparr>"

text \<open>A cache with a valid file and an empty one.\<close>

definition cache2 :: world where
  "cache2 = \<lparr>entries = [\<lparr>fname = ''a.mp3'', fmtime = 1, fdata = ''abc''\<rparr>,
                        \<lparr>fname = ''b.mp3'', fmtime = 2, fdata = []\<rparr>], calls = []\<rparr>"

text \<open>The platform rejects every deletion of \<open>a.mp3\<close>, and nothing else.\<close>

definition locked_a :: env where
  "locked_a = quiet\<lparr>faults := (\<lambda>n c. c = DeleteFile ''a.mp3'')\<rparr>"



definition stream_url :: string where
  "stream_url = ''http://server/api/stream/a?token=t''"


text \<open>
  A server whose file differs from the cached \<open>a.mp3\<close>, on a platform that rejects every
  \<open>writeFile\<close>, and on one that rejects every \<open>getUri\<close>.
\<close>

definition fresh_server :: env where
  "fresh_server = quiet\<lparr>get_whole := (\<lambda>url. Inr \<lparr>rstatus = 200, rdata = ''xyz''\<rparr>)\<rparr>"


definition lost_uri :: env where
  "lost_uri = fresh_server\<lparr>faults := (\<lambda>n c. case c of GetUri p \<Rightarrow> True | _ \<Rightarrow> False)\<rparr>"
section \<open>Properties of the download queue\<close>

subsection \<open>Lookups\<close>

lemma find_absent: "\<forall>t\<in>set xs. \<not> P t \<Longrightarrow> find P xs = None"
  by (simp add: find_None_iff)

lemma find_by_id: "t \<in> set ts \<Longrightarrow> \<exists>u. find (\<lambda>v. id' v = id' t) ts = Some u \<and> id' u = id' t"
  by (cases "find (\<lambda>v. id' v = id' t) ts") (auto simp: find_None_iff find_Some_iff)

lemma mark_twice:
  "(\<And>u. id' (d u) = id' u) \<Longrightarrow>
   (\<lambda>t. if id' t = y then c t else t) \<circ> (\<lambda>t. if id' t = y then d t else t)
   = (\<lambda>t. if id' t = y then c (d t) else t)"
  by (auto simp: fun_eq_iff)

lemma marked_status:
  assumes "\<And>u. id' (g u) = id' u" "t \<in> set ts"
  shows "map_option status
           (find (\<lambda>v. id' v = id' t) (map (\<lambda>u. if id' u = id' t then g u else u) ts))
         = map_option (\<lambda>u. status (g u)) (find (\<lambda>v. id' v = id' t) ts)"
  using assms(1) by (induction ts) auto

lemma status_of_startDownload:
  assumes mem: "t \<in> set (tasks s)"
  shows "status_of (startDownload s (id' t)) (id' t) = Some downloading"
proof -
  from mem obtain u where u: "find (\<lambda>v. id' v = id' t) (tasks s) = Some u" "id' u = id' t"
    using find_by_id by blast
  have "map_option status (find (\<lambda>v. id' v = id' t)
          (map (\<lambda>u. if id' u = id' t then u\<lparr>status := downloading, error := None\<rparr> else u)
               (tasks s)))
        = map_option (\<lambda>u. status (u\<lparr>status := downloading, error := None\<rparr>))
            (find (\<lambda>v. id' v = id' t) (tasks s))"
    using mem by (intro marked_status) simp_all
  with u show ?thesis
    by (simp add: startDownload_def status_of_def)
qed

subsection \<open>The order in which tasks are started\<close>

text \<open>
  C1, as the code behaves. \<open>addTask\<close> puts a new task at the head of the list and
  \<open>processQueue\<close> takes the first pending task from the head. Three tasks with distinct,
  non-empty ids added one after the other to the empty store: the first is started by its
  own \<open>addTask\<close> and is the only transfer in flight; when it settles (whatever the
  outcome) the task added last is started, and the task added second is started last.
  The transfers are requested in the order T1, T3, T2.
\<close>

theorem addTask_three_order:
  assumes "id' t1 \<noteq> []" "id' t2 \<noteq> []" "id' t3 \<noteq> []"
      and "id' t1 \<noteq> id' t2" "id' t1 \<noteq> id' t3" "id' t2 \<noteq> id' t3"
  shows "inflight (run initialState [AddTask t1 n1, AddTask t2 n2, AddTask t3 n3]) = [id' t1]
       \<and> launched (run initialState [AddTask t1 n1, AddTask t2 n2, AddTask t3 n3,
                                      Settle (id' t1) o1, Settle (id' t3) o2])
         = [id' t1, id' t3, id' t2]"
  using assms
  by (cases o1; cases o2)
     (simp_all add: run_def initialState_def addTask_def processQueue_def startDownload_def
        startDownload_settled_def completeTask_def failTask_def)

theorem addTask_three_order_witness:
  "inflight (run initialState [AddTask (descriptor ''T1'') 1, AddTask (descriptor ''T2'') 2,
                               AddTask (descriptor ''T3'') 3]) = [''T1'']
   \<and> launched (run initialState [AddTask (descriptor ''T1'') 1, AddTask (descriptor ''T2'') 2,
                                  AddTask (descriptor ''T3'') 3,
                                  Settle ''T1'' Resolved, Settle ''T3'' (Rejected None)])
     = [''T1'', ''T3'', ''T2'']"
  using addTask_three_order [of "descriptor ''T1''" "descriptor ''T2''" "descriptor ''T3''"
                                1 2 3 Resolved "Rejected None"]
  by (simp add: descriptor_def)

text \<open>
  C1, as stated, fails: T1, T2, T3 added in that order and every transfer resolving, the
  transfers are requested in the order T1, T3, T2, not T1, T2, T3.
\<close>

theorem addTask_fifo_counterexample:
  "launched (run initialState [AddTask (descriptor ''T1'') 1, AddTask (descriptor ''T2'') 2,
                               AddTask (descriptor ''T3'') 3,
                               Settle ''T1'' Resolved, Settle ''T3'' Resolved])
   \<noteq> [''T1'', ''T2'', ''T3'']"
  by (simp add: run_def initialState_def descriptor_def addTask_def processQueue_def
        startDownload_def startDownload_settled_def completeTask_def)

subsection \<open>One transfer at a time\<close>

lemma queue_inv_initial: "queue_inv initialState"
  by (simp add: queue_inv_def initialState_def)

lemma queue_inv_processQueue:
  assumes inv: "queue_inv s"
  shows "queue_inv (processQueue s)"
proof (cases "truthy (activeTaskId s)")
  case True
  then show ?thesis using inv by (simp add: processQueue_def)
next
  case False
  then have act: "activeTaskId s = None"
    using inv by (cases "activeTaskId s") (auto simp: queue_inv_def)
  show ?thesis
  proof (cases "find (\<lambda>t. status t = pending) (tasks s)")
    case None
    then show ?thesis using inv act by (simp add: processQueue_def)
  next
    case (Some nt)
    then have mem: "nt \<in> set (tasks s)"
      by (auto simp: find_Some_iff)
    then obtain u where "find (\<lambda>t. id' t = id' nt) (tasks s) = Some u"
      using find_by_id by blast
    then show ?thesis
      using inv act Some mem
      by (auto simp: processQueue_def startDownload_def queue_inv_def comp_def
            if_distrib[where f=id'] cong: if_cong)
  qed
qed

lemma queue_inv_addTask:
  assumes "queue_inv s" "id' taskInfo \<noteq> []"
  shows "queue_inv (addTask s taskInfo now)"
proof -
  have retry: "queue_inv (retryTask s (id' taskInfo))"
    if "find (\<lambda>t. id' t = id' taskInfo \<and> status t \<noteq> failed) (tasks s) = None"
  proof -
    from that have nf: "\<forall>t\<in>set (tasks s). id' t = id' taskInfo \<longrightarrow> status t = failed"
      by (auto simp: find_None_iff)
    have "queue_inv (s\<lparr>tasks := map (\<lambda>t. if id' t = id' taskInfo
                                          then t\<lparr>status := pending, progress := 0, error := None\<rparr>
                                          else t) (tasks s)\<rparr>)"
      using assms(1) nf
      by (auto simp: queue_inv_def comp_def if_distrib[where f=id'] split: option.splits
               cong: if_cong)
    then show ?thesis
      unfolding retryTask_def by (rule queue_inv_processQueue)
  qed
  have fresh: "queue_inv (s\<lparr>tasks := nt # tasks s\<rparr>)"
    if "id' nt = id' taskInfo" "status nt = pending"
       "find (\<lambda>t. id' t = id' taskInfo \<and> status t \<noteq> failed) (tasks s) = None"
       "find (\<lambda>t. id' t = id' taskInfo \<and> status t = failed) (tasks s) = None" for nt
  proof -
    from that(3,4) have "\<forall>t\<in>set (tasks s). id' t \<noteq> id' taskInfo"
      by (auto simp: find_None_iff)
    then show ?thesis
      using assms that(1,2) by (auto simp: queue_inv_def split: option.splits)
  qed
  show ?thesis
    unfolding addTask_def Let_def
    using assms(1) retry fresh
    by (auto intro!: queue_inv_processQueue)
qed

lemma queue_inv_settled:
  assumes "queue_inv s" "taskId \<in> set (inflight s)"
  shows "queue_inv (startDownload_settled s taskId out)"
proof -
  from assms have act: "activeTaskId s = Some taskId" and inf: "inflight s = [taskId]"
    by (auto simp: queue_inv_def split: option.splits)
  define s1 where "s1 = (case out of
      Resolved \<Rightarrow> completeTask s taskId
    | Rejected m \<Rightarrow>
        failTask s taskId (case m of Some message \<Rightarrow> message | None \<Rightarrow> ''Download failed''))"
  have "queue_inv (s1\<lparr>activeTaskId := None, inflight := remove1 taskId (inflight s1)\<rparr>)"
    using assms(1) act inf
    by (cases out)
       (auto simp: s1_def queue_inv_def completeTask_def failTask_def comp_def
             if_distrib[where f=id'] cong: if_cong)
  then show ?thesis
    unfolding startDownload_settled_def Let_def s1_def by (rule queue_inv_processQueue)
qed

lemma queue_inv_step: "queue_inv s \<Longrightarrow> nonempty_id ev \<Longrightarrow> queue_inv (step s ev)"
  by (cases ev) (auto simp: queue_inv_addTask queue_inv_settled)

lemma queue_inv_run: "queue_inv s \<Longrightarrow> list_all nonempty_id evs \<Longrightarrow> queue_inv (run s evs)"
  unfolding run_def
  by (induction evs arbitrary: s) (auto simp: queue_inv_step)

lemma same_key_short:
  "distinct (map f xs) \<Longrightarrow> \<forall>x\<in>set xs. f x = a \<Longrightarrow> length xs \<le> Suc 0"
  by (cases xs; cases "tl xs") auto

lemma queue_inv_single:
  assumes "queue_inv s"
  shows "length (downloading_tasks s) \<le> 1"
proof -
  have d: "distinct (map id' (downloading_tasks s))"
    using assms by (simp add: queue_inv_def downloading_tasks_def distinct_map_filter)
  show ?thesis
  proof (cases "activeTaskId s")
    case None
    then have "downloading_tasks s = []"
      using assms by (auto simp: queue_inv_def downloading_tasks_def filter_empty_conv)
    then show ?thesis by simp
  next
    case (Some a)
    then have "\<forall>t\<in>set (downloading_tasks s). id' t = a"
      using assms by (auto simp: queue_inv_def downloading_tasks_def)
    with d show ?thesis using same_key_short by fastforce
  qed
qed

text \<open>
  As long as no task id is the empty string, at most one task is \<open>downloading\<close> after
  any sequence of \<open>addTask\<close> calls and settled transfers, hence at every instant at which
  the store can be observed.
\<close>

lemma single_flight_nonempty_ids:
  "list_all nonempty_id evs \<Longrightarrow> length (downloading_tasks (run initialState evs)) \<le> 1"
  by (intro queue_inv_single queue_inv_run queue_inv_initial)

text \<open>
  C2 fails at the empty task id. \<open>processQueue\<close> tests the marker for truthiness, and the
  marker of a running task whose id is the empty string is falsy: the next \<open>addTask\<close>
  starts a second transfer, and two tasks are \<open>downloading\<close> at once.
\<close>

theorem single_flight_empty_id:
  "map id' (downloading_tasks
     (run initialState [AddTask (descriptor '''') 1, AddTask (descriptor ''a'') 2]))
   = [''a'', '''']"
  by (simp add: run_def initialState_def descriptor_def addTask_def processQueue_def
        startDownload_def downloading_tasks_def)

subsection \<open>Restart\<close>

lemma first_pending_is_target:
  "distinct (map id' ts) \<Longrightarrow> t \<in> set ts \<Longrightarrow> status t = pending \<Longrightarrow>
   pending_before (id' t) ts = 0 \<Longrightarrow> find (\<lambda>u. status u = pending) ts = Some t"
proof (induction ts)
  case Nil
  then show ?case by simp
next
  case (Cons a ts)
  show ?case
  proof (cases "id' a = id' t")
    case True
    with Cons.prems have "a = t" by (auto simp: image_iff)
    with Cons.prems show ?thesis by simp
  next
    case False
    with Cons.prems have "status a \<noteq> pending" "t \<in> set ts" "pending_before (id' t) ts = 0"
      by (auto simp: pending_before_def split: if_splits)
    with Cons show ?thesis by simp
  qed
qed

lemma first_pending_precedes:
  assumes "distinct (map id' ts)" "pending_before x ts = Suc k"
      and "\<And>u. id' (g u) = id' u" "\<And>u. status (g u) \<noteq> pending"
  shows "\<exists>p. find (\<lambda>u. status u = pending) ts = Some p \<and> id' p \<noteq> x \<and>
             pending_before x (map (\<lambda>u. if id' u = id' p then g u else u) ts) = k"
  using assms(1,2)
proof (induction ts)
  case Nil
  then show ?case by (simp add: pending_before_def)
next
  case (Cons a ts)
  from Cons.prems(2) have ne: "id' a \<noteq> x"
    by (auto simp: pending_before_def split: if_splits)
  show ?case
  proof (cases "status a = pending")
    case True
    from Cons.prems(1) have "map (\<lambda>u. if id' u = id' a then g u else u) ts = ts"
      by (induction ts) auto
    with True ne Cons.prems(2) assms(3,4) show ?thesis
      by (simp add: pending_before_def)
  next
    case False
    with ne Cons.prems have "pending_before x ts = Suc k" "distinct (map id' ts)"
      by (auto simp: pending_before_def)
    with Cons.IH obtain p where p: "find (\<lambda>u. status u = pending) ts = Some p" "id' p \<noteq> x"
       "pending_before x (map (\<lambda>u. if id' u = id' p then g u else u) ts) = k"
      by blast
    from p(1) have "p \<in> set ts" by (auto simp: find_Some_iff)
    with Cons.prems(1) have "id' a \<noteq> id' p" by auto
    with p False ne show ?thesis
      by (simp add: pending_before_def)
  qed
qed

lemma eventually_started:
  assumes "activeTaskId s = None" "inflight s = []" "distinct (map id' (tasks s))"
      and "t \<in> set (tasks s)" "status t = pending"
      and "length outs = pending_before (id' t) (tasks s)"
  shows "status_of (settle_all (processQueue s) outs) (id' t) = Some downloading"
  using assms
proof (induction outs arbitrary: s)
  case Nil
  then have "find (\<lambda>u. status u = pending) (tasks s) = Some t"
    by (intro first_pending_is_target) simp_all
  with Nil show ?case
    by (simp add: processQueue_def status_of_startDownload)
next
  case (Cons out outs)
  define g where "g = (\<lambda>u::DownloadTask. case out of
       Resolved \<Rightarrow> u\<lparr>status := downloading, error := None\<rparr>\<lparr>status := completed, progress := 100\<rparr>
     | Rejected m \<Rightarrow>
         u\<lparr>status := downloading, error := None\<rparr>
          \<lparr>status := failed,
           error := Some (case m of Some message \<Rightarrow> message | None \<Rightarrow> ''Download failed'')\<rparr>)"
  have g: "\<And>u. id' (g u) = id' u" "\<And>u. status (g u) \<noteq> pending"
    by (cases out; simp add: g_def)+
  from Cons.prems have "pending_before (id' t) (tasks s) = Suc (length outs)" by simp
  with Cons.prems(3) g obtain p where p: "find (\<lambda>u. status u = pending) (tasks s) = Some p"
      "id' p \<noteq> id' t"
      "pending_before (id' t) (map (\<lambda>u. if id' u = id' p then g u else u) (tasks s)) = length outs"
    using first_pending_precedes[of "tasks s" "id' t" "length outs" g] by blast
  from p(1) have pm: "p \<in> set (tasks s)" by (auto simp: find_Some_iff)
  then obtain u where u: "find (\<lambda>v. id' v = id' p) (tasks s) = Some u"
    using find_by_id by blast
  define s2 where "s2 = s\<lparr>tasks := map (\<lambda>u. if id' u = id' p then g u else u) (tasks s),
                          activeTaskId := None, inflight := [],
                          launched := launched s @ [id' p]\<rparr>"
  have step1: "processQueue s = s\<lparr>activeTaskId := Some (id' p),
        tasks := map (\<lambda>t. if id' t = id' p then t\<lparr>status := downloading, error := None\<rparr> else t)
                     (tasks s),
        inflight := [id' p], launched := launched s @ [id' p]\<rparr>"
    using Cons.prems(1,2) p(1) u by (simp add: processQueue_def startDownload_def)
  have "startDownload_settled (processQueue s) (id' p) out = processQueue s2"
    unfolding startDownload_settled_def Let_def step1
    by (rule arg_cong[where f = processQueue], rule DownloadState.equality; cases out)
       (simp_all add: completeTask_def failTask_def s2_def g_def mark_twice cong: if_cong)
  then have "settle_all (processQueue s) (out # outs) = settle_all (processQueue s2) outs"
    by (simp add: step1)
  moreover have "status_of (settle_all (processQueue s2) outs) (id' t) = Some downloading"
  proof (rule Cons.IH)
    show "activeTaskId s2 = None" "inflight s2 = []" by (simp_all add: s2_def)
    show "distinct (map id' (tasks s2))"
      using Cons.prems(3) g(1) by (simp add: s2_def comp_def if_distrib[where f=id'] cong: if_cong)
    show "t \<in> set (tasks s2)"
      using Cons.prems(4) p(2) by (force simp: s2_def)
    show "status t = pending" by fact
    show "length outs = pending_before (id' t) (tasks s2)"
      using p(3) by (simp add: s2_def)
  qed
  ultimately show ?case by simp
qed

text \<open>
  A task found \<open>downloading\<close> in a persisted list with distinct ids, no transfer being
  in flight: what \<open>initializeQueue\<close> makes of it.
\<close>

lemma recovery_after_restart:
  assumes "distinct (map id' (tasks s))" and "inflight s = []"
      and "t \<in> set (tasks s)" and "status t = downloading"
  shows "let s1 = s\<lparr>tasks := map (\<lambda>u. if status u = downloading then u\<lparr>status := pending\<rparr> else u)
                                  (tasks s),
                    activeTaskId := None\<rparr>
         in initializeQueue s = processQueue s1
          \<and> activeTaskId s1 = None
          \<and> (\<forall>u\<in>set (tasks s1). status u \<noteq> downloading)
          \<and> t\<lparr>status := pending\<rparr> \<in> set (tasks s1)
          \<and> status_of s1 (id' t) = Some pending
          \<and> (length outs = pending_before (id' t) (tasks s1) \<longrightarrow>
                status_of (settle_all (initializeQueue s) outs) (id' t) = Some downloading)"
proof -
  define s1 where "s1 = s\<lparr>tasks := map (\<lambda>u. if status u = downloading then u\<lparr>status := pending\<rparr> else u)
                                  (tasks s),
                    activeTaskId := None\<rparr>"
  define t1 where "t1 = t\<lparr>status := pending\<rparr>"
  have init: "initializeQueue s = processQueue s1"
    by (simp add: initializeQueue_def s1_def)
  have ids: "map id' (tasks s1) = map id' (tasks s)"
    by (simp add: s1_def comp_def if_distrib[where f=id'] cong: if_cong)
  have mem: "t1 \<in> set (tasks s1)"
    using assms(3,4) by (force simp: s1_def t1_def)
  have nodl: "\<forall>u\<in>set (tasks s1). status u \<noteq> downloading"
    by (auto simp: s1_def)
  have act: "activeTaskId s1 = None" and inf: "inflight s1 = []"
    using assms(2) by (simp_all add: s1_def)
  have dist: "distinct (map id' (tasks s1))"
    using assms(1) ids by simp
  have pend: "status t1 = pending" and idt: "id' t1 = id' t"
    by (simp_all add: t1_def)
  from mem obtain u where u: "find (\<lambda>v. id' v = id' t1) (tasks s1) = Some u" "id' u = id' t1"
    using find_by_id by blast
  then have "u \<in> set (tasks s1)" by (auto simp: find_Some_iff)
  moreover from dist have "inj_on id' (set (tasks s1))" by (simp add: distinct_map)
  ultimately have "u = t1" using mem u(2) by (auto dest: inj_onD)
  with u pend idt have st: "status_of s1 (id' t) = Some pending"
    by (simp add: status_of_def)
  have ev: "status_of (settle_all (initializeQueue s) outs) (id' t) = Some downloading"
    if "length outs = pending_before (id' t) (tasks s1)" for outs
  proof -
    from that idt have "length outs = pending_before (id' t1) (tasks s1)" by simp
    with act inf dist mem pend
    have "status_of (settle_all (processQueue s1) outs) (id' t1) = Some downloading"
      by (rule eventually_started)
    then show ?thesis by (simp add: init idt)
  qed
  have "initializeQueue s = processQueue s1
          \<and> activeTaskId s1 = None
          \<and> (\<forall>u\<in>set (tasks s1). status u \<noteq> downloading)
          \<and> t\<lparr>status := pending\<rparr> \<in> set (tasks s1)
          \<and> status_of s1 (id' t) = Some pending
          \<and> (length outs = pending_before (id' t) (tasks s1) \<longrightarrow>
                status_of (settle_all (initializeQueue s) outs) (id' t) = Some downloading)"
    using init act nodl mem st ev by (simp only: t1_def simp_thms) blast
  then show ?thesis
    unfolding Let_def s1_def .
qed

text \<open>
  C8. For every store, \<open>initializeQueue\<close> is \<open>processQueue\<close> run on the store in which
  every task that was \<open>downloading\<close> is \<open>pending\<close>, every other task is as it was, and
  the marker is cleared; no task of that store is \<open>downloading\<close>. For a persisted list
  with distinct ids and no transfer in flight (a fresh process), a task found
  \<open>downloading\<close> is \<open>pending\<close> in that store, and it is \<open>downloading\<close> again once the
  pending tasks that precede it in the list have been started and their transfers have
  settled, whatever their outcomes.
\<close>

theorem initializeQueue_recovery:
  "let s1 = s\<lparr>tasks := map (\<lambda>u. if status u = downloading then u\<lparr>status := pending\<rparr> else u)
                            (tasks s),
                activeTaskId := None\<rparr>
   in initializeQueue s = processQueue s1
    \<and> activeTaskId s1 = None \<and> inflight s1 = inflight s \<and> launched s1 = launched s
    \<and> length (tasks s1) = length (tasks s)
    \<and> (\<forall>i<length (tasks s).
          tasks s1 ! i = (if status (tasks s ! i) = downloading
                          then (tasks s ! i)\<lparr>status := pending\<rparr> else tasks s ! i))
    \<and> (\<forall>u\<in>set (tasks s1). status u \<noteq> downloading)
    \<and> (distinct (map id' (tasks s)) \<and> inflight s = [] \<and> t \<in> set (tasks s)
         \<and> status t = downloading \<longrightarrow>
           t\<lparr>status := pending\<rparr> \<in> set (tasks s1)
         \<and> status_of s1 (id' t) = Some pending
         \<and> (length outs = pending_before (id' t) (tasks s1) \<longrightarrow>
               status_of (settle_all (initializeQueue s) outs) (id' t) = Some downloading))"
proof -
  define s1 where "s1 = s\<lparr>tasks := map (\<lambda>u. if status u = downloading then u\<lparr>status := pending\<rparr> else u)
                                  (tasks s),
                    activeTaskId := None\<rparr>"
  have init: "initializeQueue s = processQueue s1"
    by (simp add: initializeQueue_def s1_def)
  have frame: "activeTaskId s1 = None" "inflight s1 = inflight s" "launched s1 = launched s"
      "length (tasks s1) = length (tasks s)"
    by (simp_all add: s1_def)
  have each: "\<forall>i<length (tasks s).
          tasks s1 ! i = (if status (tasks s ! i) = downloading
                          then (tasks s ! i)\<lparr>status := pending\<rparr> else tasks s ! i)"
    by (simp add: s1_def)
  have nodl: "\<forall>u\<in>set (tasks s1). status u \<noteq> downloading"
    by (auto simp: s1_def)
  have rec: "t\<lparr>status := pending\<rparr> \<in> set (tasks s1)
         \<and> status_of s1 (id' t) = Some pending
         \<and> (length outs = pending_before (id' t) (tasks s1) \<longrightarrow>
               status_of (settle_all (initializeQueue s) outs) (id' t) = Some downloading)"
    if "distinct (map id' (tasks s)) \<and> inflight s = [] \<and> t \<in> set (tasks s)
         \<and> status t = downloading"
  proof -
    from that have h: "distinct (map id' (tasks s))" "inflight s = []" "t \<in> set (tasks s)"
        "status t = downloading"
      by simp_all
    from recovery_after_restart [OF h, of outs] show ?thesis
      unfolding Let_def s1_def by blast
  qed
  have "initializeQueue s = processQueue s1
    \<and> activeTaskId s1 = None \<and> inflight s1 = inflight s \<and> launched s1 = launched s
    \<and> length (tasks s1) = length (tasks s)
    \<and> (\<forall>i<length (tasks s).
          tasks s1 ! i = (if status (tasks s ! i) = downloading
                          then (tasks s ! i)\<lparr>status := pending\<rparr> else tasks s ! i))
    \<and> (\<forall>u\<in>set (tasks s1). status u \<noteq> downloading)
    \<and> (distinct (map id' (tasks s)) \<and> inflight s = [] \<and> t \<in> set (tasks s)
         \<and> status t = downloading \<longrightarrow>
           t\<lparr>status := pending\<rparr> \<in> set (tasks s1)
         \<and> status_of s1 (id' t) = Some pending
         \<and> (length outs = pending_before (id' t) (tasks s1) \<longrightarrow>
               status_of (settle_all (initializeQueue s) outs) (id' t) = Some downloading))"
    using init frame each nodl rec by blast
  then show ?thesis
    unfolding Let_def s1_def .
qed

theorem initializeQueue_recovery_witness:
  "persisted ''T2'' downloading \<in> set (tasks restart_state)
   \<and> status_of (settle_all (initializeQueue restart_state) [Rejected None]) ''T2'' = Some downloading
   \<and> initializeQueue \<lparr>tasks = [persisted ''P'' pending], activeTaskId = None,
                       inflight = [], launched = []\<rparr>
       = \<lparr>tasks = [persisted ''P'' downloading], activeTaskId = Some ''P'',
          inflight = [''P''], launched = [''P'']\<rparr>"
proof -
  have h: "distinct (map id' (tasks restart_state)) \<and> inflight restart_state = []
       \<and> persisted ''T2'' downloading \<in> set (tasks restart_state)
       \<and> status (persisted ''T2'' downloading) = downloading"
    by (simp add: restart_state_def persisted_def)
  have k: "pending_before ''T2''
             (map (\<lambda>u. if status u = downloading then u\<lparr>status := pending\<rparr> else u)
                  (tasks restart_state)) = length [Rejected None]"
    by (simp add: restart_state_def persisted_def pending_before_def)
  have i: "id' (persisted ''T2'' downloading) = ''T2''"
    by (simp add: persisted_def)
  note r = initializeQueue_recovery [of restart_state "persisted ''T2'' downloading"
      "[Rejected None]", unfolded Let_def i]
  from r h have "length [Rejected None] = pending_before ''T2''
             (tasks (restart_state\<lparr>tasks := map (\<lambda>u. if status u = downloading then u\<lparr>status := pending\<rparr> else u)
                  (tasks restart_state), activeTaskId := None\<rparr>)) \<longrightarrow>
      status_of (settle_all (initializeQueue restart_state) [Rejected None]) ''T2'' = Some downloading"
    by blast
  with k have a: "status_of (settle_all (initializeQueue restart_state) [Rejected None]) ''T2''
      = Some downloading"
    by simp
  note q = initializeQueue_recovery [of "\<lparr>tasks = [persisted ''P'' pending], activeTaskId = None,
      inflight = [], launched = []\<rparr>", unfolded Let_def, THEN conjunct1]
  have b: "initializeQueue \<lparr>tasks = [persisted ''P'' pending], activeTaskId = None,
                       inflight = [], launched = []\<rparr>
       = \<lparr>tasks = [persisted ''P'' downloading], activeTaskId = Some ''P'',
          inflight = [''P''], launched = [''P'']\<rparr>"
    unfolding q by (simp add: persisted_def processQueue_def startDownload_def)
  from a b h show ?thesis by simp
qed

subsection \<open>Starting a task that is not in the list\<close>

text \<open>
  C10. \<open>startDownload\<close> with an id that no task carries leaves the store as it was,
  except that the marker is \<open>null\<close>: the task list is unchanged, no transfer is requested
  (\<open>launched\<close>) and none is awaited (\<open>inflight\<close>).
\<close>

theorem startDownload_unknown_task:
  assumes "\<forall>t\<in>set (tasks s). id' t \<noteq> taskId"
  shows "startDownload s taskId = s\<lparr>activeTaskId := None\<rparr>"
  using assms by (simp add: startDownload_def Let_def find_absent)

theorem startDownload_unknown_task_witness:
  "startDownload \<lparr>tasks = [persisted ''a'' downloading], activeTaskId = Some ''a'',
                   inflight = [''a''], launched = [''a'']\<rparr> ''zz''
   = \<lparr>tasks = [persisted ''a'' downloading], activeTaskId = None,
      inflight = [''a''], launched = [''a'']\<rparr>"
  using startDownload_unknown_task
          [of "\<lparr>tasks = [persisted ''a'' downloading], activeTaskId = Some ''a'',
                inflight = [''a''], launched = [''a'']\<rparr>" "''zz''"]
  by (simp add: persisted_def)

section \<open>Properties of the cache store\<close>

subsection \<open>What \<open>getCacheStats\<close> and the deletion loop compute\<close>

lemma lookup_calls [simp]: "lookup (w\<lparr>calls := cs\<rparr>) p = lookup w p"
  by (simp add: lookup_def)

lemma lookup_distinct:
  "distinct (map fname fs) \<Longrightarrow> f \<in> set fs \<Longrightarrow> find (\<lambda>g. fname g = fname f) fs = Some f"
  by (induction fs) (auto simp: image_iff)

lemma stat_files_ok:
  assumes "reads_succeed e" "\<forall>f\<in>set fs. lookup w (fname f) = Some f"
  shows "stat_files e (map fname fs) w acc =
           (\<lparr>stats_size = stats_size acc
                 + sum_list (map fsize (filter (\<lambda>f. \<not> endsWith (fname f) ''.tmp'') fs)),
             stats_files = stats_files acc
                 @ map (info e) (filter (\<lambda>f. \<not> endsWith (fname f) ''.tmp'') fs)\<rparr>,
            w\<lparr>calls := calls w
                 @ map (\<lambda>f. Stat (fname f)) (filter (\<lambda>f. \<not> endsWith (fname f) ''.tmp'') fs)\<rparr>)"
  using assms(2)
proof (induction fs arbitrary: w acc)
  case Nil
  then show ?case by simp
next
  case (Cons f fs)
  from assms(1) have nf: "\<not> faults e n (Stat p)" for n p
    by (simp add: reads_succeed_def)
  show ?case
  proof (cases "endsWith (fname f) ''.tmp''")
    case True
    with Cons show ?thesis by simp
  next
    case False
    from Cons.prems have lf: "lookup w (fname f) = Some f" by simp
    have st: "stat e w (fname f) =
        (Inr \<lparr>size' = fsize f, mtime = fmtime f, uri = uri_of e (fname f)\<rparr>,
         w\<lparr>calls := calls w @ [Stat (fname f)]\<rparr>)"
      using nf lf by (simp add: stat_def plugin_def)
    have "\<forall>g\<in>set fs. lookup (w\<lparr>calls := calls w @ [Stat (fname f)]\<rparr>) (fname g) = Some g"
      using Cons.prems by simp
    from Cons.IH[OF this] False st show ?thesis
      by (simp add: info_def add.assoc)
  qed
qed

lemma getCacheStats_ok:
  assumes "reads_succeed e" "distinct (map fname (entries w))"
  shows "getCacheStats e w =
           (\<lparr>stats_size = cached_size w, stats_files = map (info e) (cached w)\<rparr>,
            w\<lparr>calls := calls w @ [Readdir, Readdir] @ map (\<lambda>f. Stat (fname f)) (cached w)\<rparr>)"
proof -
  from assms(1) have nf: "\<not> faults e n Readdir" for n
    by (simp add: reads_succeed_def)
  define w2 where "w2 = w\<lparr>calls := calls w @ [Readdir, Readdir]\<rparr>"
  have "\<forall>f\<in>set (entries w). lookup w2 (fname f) = Some f"
    using assms(2) by (simp add: w2_def lookup_def lookup_distinct)
  from stat_files_ok[OF assms(1) this, of "\<lparr>stats_size = 0, stats_files = []\<rparr>"]
  show ?thesis
    using nf by (simp add: getCacheStats_def readdir_def plugin_def w2_def cached_def cached_size_def)
qed

lemma delete_each_ok:
  assumes "\<forall>n. \<forall>p\<in>set ns. \<not> faults e n (DeleteFile p)"
      and "distinct ns" "set ns \<subseteq> fname ` set (entries w)"
  shows "delete_each e ns w =
           (Inr (), w\<lparr>entries := filter (\<lambda>f. fname f \<notin> set ns) (entries w),
                       calls := calls w @ map DeleteFile ns\<rparr>)"
  using assms
proof (induction ns arbitrary: w)
  case Nil
  then show ?case by simp
next
  case (Cons n ns)
  from Cons.prems obtain f where f: "f \<in> set (entries w)" "fname f = n" by auto
  then have "find (\<lambda>g. fname g = n) (entries w) \<noteq> None"
    by (auto simp: find_None_iff)
  with Cons.prems(1) have d: "deleteFile e w n =
      (Inr (), w\<lparr>entries := filter (\<lambda>f. fname f \<noteq> n) (entries w), calls := calls w @ [DeleteFile n]\<rparr>)"
    by (simp add: deleteFile_def plugin_def lookup_def)
  define w1 where "w1 = w\<lparr>entries := filter (\<lambda>f. fname f \<noteq> n) (entries w), calls := calls w @ [DeleteFile n]\<rparr>"
  have "set ns \<subseteq> fname ` set (entries w1)"
  proof
    fix y assume y: "y \<in> set ns"
    with Cons.prems(2) have "y \<noteq> n" by auto
    moreover from y Cons.prems(3) obtain g where "g \<in> set (entries w)" "fname g = y" by auto
    ultimately show "y \<in> fname ` set (entries w1)" by (force simp: w1_def)
  qed
  with Cons.IH[of w1] Cons.prems have "delete_each e ns w1 =
      (Inr (), w1\<lparr>entries := filter (\<lambda>f. fname f \<notin> set ns) (entries w1),
                       calls := calls w1 @ map DeleteFile ns\<rparr>)"
    by simp
  with d show ?case
    by (simp add: w1_def conj_commute)
qed

lemma delete_each_rejected:
  assumes "\<forall>n. \<forall>p\<in>set pre. \<not> faults e n (DeleteFile p)"
      and "\<forall>n. faults e n (DeleteFile x)"
      and "distinct pre" "set pre \<subseteq> fname ` set (entries w)"
  shows "delete_each e (pre @ x # post) w =
           (Inl IOError, w\<lparr>entries := filter (\<lambda>f. fname f \<notin> set pre) (entries w),
                           calls := calls w @ map DeleteFile (pre @ [x])\<rparr>)"
  using assms
proof (induction pre arbitrary: w)
  case Nil
  then show ?case by (simp add: deleteFile_def plugin_def)
next
  case (Cons n ns)
  from Cons.prems obtain f where f: "f \<in> set (entries w)" "fname f = n" by auto
  then have "find (\<lambda>g. fname g = n) (entries w) \<noteq> None"
    by (auto simp: find_None_iff)
  with Cons.prems(1) have d: "deleteFile e w n =
      (Inr (), w\<lparr>entries := filter (\<lambda>f. fname f \<noteq> n) (entries w), calls := calls w @ [DeleteFile n]\<rparr>)"
    by (simp add: deleteFile_def plugin_def lookup_def)
  define w1 where "w1 = w\<lparr>entries := filter (\<lambda>f. fname f \<noteq> n) (entries w), calls := calls w @ [DeleteFile n]\<rparr>"
  have "set ns \<subseteq> fname ` set (entries w1)"
  proof
    fix y assume y: "y \<in> set ns"
    with Cons.prems(3) have "y \<noteq> n" by auto
    moreover from y Cons.prems(4) obtain g where "g \<in> set (entries w)" "fname g = y" by auto
    ultimately show "y \<in> fname ` set (entries w1)" by (force simp: w1_def)
  qed
  with Cons.IH[of w1] Cons.prems have "delete_each e (ns @ x # post) w1 =
      (Inl IOError, w1\<lparr>entries := filter (\<lambda>f. fname f \<notin> set ns) (entries w1),
                       calls := calls w1 @ map DeleteFile (ns @ [x])\<rparr>)"
    by simp
  with d show ?case
    by (simp add: w1_def conj_commute)
qed

subsection \<open>The files chosen for deletion\<close>

lemma sum_list_insort_key:
  "sum_list (map f (insort_key k x xs)) = f x + sum_list (map f xs)" for f :: "'a \<Rightarrow> int"
  by (induction xs) auto

lemma sum_list_sort_key:
  "sum_list (map f (sort_key k xs)) = sum_list (map f xs)" for f :: "'a \<Rightarrow> int"
  by (induction xs) (auto simp: sum_list_insort_key)

lemma sum_list_take_drop:
  "sum_list (map f (take k xs)) + sum_list (map f (drop k xs)) = sum_list (map f xs)"
  for f :: "'a \<Rightarrow> int"
  by (metis append_take_drop_id map_append sum_list_append)

lemma select_by_size_prefix:
  "\<exists>j\<le>length fs. select_by_size fs (sum_list (map size' fs)) = take j fs
       \<and> sum_list (map size' (drop j fs)) \<le> MAX_CACHE_SIZE_BYTES
       \<and> (\<forall>i<j. MAX_CACHE_SIZE_BYTES < sum_list (map size' (drop i fs)))"
proof (induction fs)
  case Nil
  show ?case by (simp add: MAX_CACHE_SIZE_BYTES_def)
next
  case (Cons f fs)
  show ?case
  proof (cases "size' f + sum_list (map size' fs) \<le> MAX_CACHE_SIZE_BYTES")
    case True
    then show ?thesis by (intro exI[of _ 0]) simp
  next
    case False
    from Cons.IH obtain j where j: "j \<le> length fs"
        "select_by_size fs (sum_list (map size' fs)) = take j fs"
        "sum_list (map size' (drop j fs)) \<le> MAX_CACHE_SIZE_BYTES"
        "\<forall>i<j. MAX_CACHE_SIZE_BYTES < sum_list (map size' (drop i fs))"
      by blast
    have "\<forall>i<Suc j. MAX_CACHE_SIZE_BYTES < sum_list (map size' (drop i (f # fs)))"
    proof (intro allI impI)
      fix i assume "i < Suc j"
      then show "MAX_CACHE_SIZE_BYTES < sum_list (map size' (drop i (f # fs)))"
        using False j(4) by (cases i) auto
    qed
    with False j(1,2,3) show ?thesis
      by (intro exI[of _ "Suc j"]) simp
  qed
qed

lemma filesToDelete_prefix:
  assumes "stats_size st = sum_list (map size' (stats_files st))"
  defines "S \<equiv> sort_key mtime (stats_files st)"
  shows "\<exists>k\<le>length S. filesToDelete st = take k S
           \<and> length S - MAX_FILES \<le> k
           \<and> sum_list (map size' (drop k S)) \<le> MAX_CACHE_SIZE_BYTES
           \<and> (\<forall>i. length S - MAX_FILES \<le> i \<and> i < k \<longrightarrow>
                  MAX_CACHE_SIZE_BYTES < sum_list (map size' (drop i S)))"
proof -
  define k0 where "k0 = length S - MAX_FILES"
  have k0: "(if length S > MAX_FILES then length S - MAX_FILES else 0) = k0"
    by (simp add: k0_def)
  have cur: "stats_size st - sum_list (map size' (take k0 S)) = sum_list (map size' (drop k0 S))"
    using sum_list_take_drop[of size' k0 S] assms(1)
    by (simp add: S_def sum_list_sort_key)
  obtain j where j: "j \<le> length (drop k0 S)"
      "select_by_size (drop k0 S) (sum_list (map size' (drop k0 S))) = take j (drop k0 S)"
      "sum_list (map size' (drop j (drop k0 S))) \<le> MAX_CACHE_SIZE_BYTES"
      "\<forall>i<j. MAX_CACHE_SIZE_BYTES < sum_list (map size' (drop i (drop k0 S)))"
    using select_by_size_prefix[of "drop k0 S"] by blast
  have ftd: "filesToDelete st = take (k0 + j) S"
    unfolding filesToDelete_def Let_def S_def[symmetric] k0 cur j(2)
    by (simp add: take_add)
  have low: "\<forall>i. k0 \<le> i \<and> i < k0 + j \<longrightarrow> MAX_CACHE_SIZE_BYTES < sum_list (map size' (drop i S))"
  proof (intro allI impI)
    fix i assume i: "k0 \<le> i \<and> i < k0 + j"
    then have "i - k0 < j" by arith
    with j(4) have "MAX_CACHE_SIZE_BYTES < sum_list (map size' (drop (i - k0) (drop k0 S)))"
      by blast
    with i show "MAX_CACHE_SIZE_BYTES < sum_list (map size' (drop i S))"
      by (simp add: add.commute)
  qed
  have "k0 + j \<le> length S" using j(1) by (simp add: k0_def)
  with ftd low j(3) show ?thesis
    unfolding k0_def[symmetric]
    by (intro exI[of _ "k0 + j"]) (simp add: add.commute)
qed

lemma insort_key_map:
  "insort_key k (g x) (map g xs) = map g (insort_key (\<lambda>y. k (g y)) x xs)"
  by (induction xs) auto

lemma sort_key_map:
  "sort_key k (map g xs) = map g (sort_key (\<lambda>y. k (g y)) xs)"
  by (induction xs) (auto simp: insort_key_map)

lemma info_fields [simp]:
  "size' (info e f) = fsize f" "mtime (info e f) = fmtime f" "name (info e f) = fname f"
  by (simp_all add: info_def)

lemma distinct_map_sort_key:
  "distinct (map f (sort_key k xs)) = distinct (map f xs)"
  by (simp add: distinct_map)

lemma filesToDelete_cached:
  fixes e w
  defines "ord \<equiv> sort_key fmtime (cached w)"
  shows "\<exists>k\<le>length ord.
           filesToDelete \<lparr>stats_size = cached_size w, stats_files = map (info e) (cached w)\<rparr>
             = map (info e) (take k ord)
           \<and> length ord - MAX_FILES \<le> k
           \<and> sum_list (map fsize (drop k ord)) \<le> MAX_CACHE_SIZE_BYTES
           \<and> (\<forall>i. length ord - MAX_FILES \<le> i \<and> i < k \<longrightarrow>
                  MAX_CACHE_SIZE_BYTES < sum_list (map fsize (drop i ord)))"
proof -
  define st where "st = \<lparr>stats_size = cached_size w, stats_files = map (info e) (cached w)\<rparr>"
  have S: "sort_key mtime (stats_files st) = map (info e) ord"
    by (simp add: st_def ord_def sort_key_map)
  have sz: "sum_list (map size' (drop i (map (info e) ord))) = sum_list (map fsize (drop i ord))" for i
    by (simp add: drop_map comp_def)
  have "stats_size st = sum_list (map size' (stats_files st))"
    by (simp add: st_def cached_size_def comp_def)
  from filesToDelete_prefix[OF this] show ?thesis
    unfolding S st_def[symmetric] sz by (simp add: take_map)
qed

lemma rest_after_prefix:
  assumes "distinct (map fname C)" "set ord = set C" "distinct ord"
  shows "set (filter (\<lambda>f. fname f \<notin> set (map fname (take k ord))) C) = set (drop k ord)"
proof -
  have inj: "inj_on fname (set C)" using assms(1) by (simp add: distinct_map)
  have split: "set ord = set (take k ord) \<union> set (drop k ord)"
    by (metis append_take_drop_id set_append)
  have disj: "set (take k ord) \<inter> set (drop k ord) = {}"
    using assms(3) by (metis append_take_drop_id distinct_append)
  have sub: "set (take k ord) \<subseteq> set C" using assms(2) by (auto dest: in_set_takeD)
  have "f \<in> set C \<Longrightarrow> fname f \<in> fname ` set (take k ord) \<longleftrightarrow> f \<in> set (take k ord)" for f
    using inj sub by (auto dest: inj_onD)
  then have "set (filter (\<lambda>f. fname f \<notin> set (map fname (take k ord))) C) = set C - set (take k ord)"
    by auto
  also have "\<dots> = set (drop k ord)"
    using split disj assms(2) by auto
  finally show ?thesis .
qed

lemma same_set_sum:
  fixes g :: "'a \<Rightarrow> int"
  assumes "distinct xs" "distinct ys" "set xs = set ys"
  shows "sum_list (map g xs) = sum_list (map g ys)" "length xs = length ys"
proof -
  show "sum_list (map g xs) = sum_list (map g ys)"
    using assms by (simp add: sum_list_distinct_conv_sum_set)
  show "length xs = length ys"
    using assms by (metis distinct_card)
qed

lemma cached_after_delete:
  "cached (w\<lparr>entries := filter P (entries w), calls := cs\<rparr>) = filter P (cached w)"
  by (simp add: cached_def conj_commute)

lemma ensureCacheLimits_plan:
  assumes "reads_succeed e" "distinct (map fname (entries w))"
  defines "ord \<equiv> sort_key fmtime (cached w)"
      and "w1 \<equiv> w\<lparr>calls := calls w @ [Readdir, Readdir] @ map (\<lambda>f. Stat (fname f)) (cached w)\<rparr>"
  shows "\<exists>k\<le>length ord.
           length ord - MAX_FILES \<le> k
         \<and> sum_list (map fsize (drop k ord)) \<le> MAX_CACHE_SIZE_BYTES
         \<and> (\<forall>i. length ord - MAX_FILES \<le> i \<and> i < k \<longrightarrow>
                MAX_CACHE_SIZE_BYTES < sum_list (map fsize (drop i ord)))
         \<and> ensureCacheLimits e w =
             (if cached_size w > MAX_CACHE_SIZE_BYTES \<or> length (cached w) > MAX_FILES
              then (case delete_each e (map fname (take k ord)) w1 of
                      (Inl err, w2) \<Rightarrow> (CleanupFailed err, w2)
                    | (Inr _, w2) \<Rightarrow> (Deleted k, w2))
              else (WithinLimits, w1))"
proof -
  obtain k where k: "k \<le> length ord"
      "filesToDelete \<lparr>stats_size = cached_size w, stats_files = map (info e) (cached w)\<rparr>
         = map (info e) (take k ord)"
      "length ord - MAX_FILES \<le> k"
      "sum_list (map fsize (drop k ord)) \<le> MAX_CACHE_SIZE_BYTES"
      "\<forall>i. length ord - MAX_FILES \<le> i \<and> i < k \<longrightarrow>
            MAX_CACHE_SIZE_BYTES < sum_list (map fsize (drop i ord))"
    using filesToDelete_cached[of w e] unfolding ord_def by blast
  have "ensureCacheLimits e w =
             (if cached_size w > MAX_CACHE_SIZE_BYTES \<or> length (cached w) > MAX_FILES
              then (case delete_each e (map fname (take k ord)) w1 of
                      (Inl err, w2) \<Rightarrow> (CleanupFailed err, w2)
                    | (Inr _, w2) \<Rightarrow> (Deleted k, w2))
              else (WithinLimits, w1))"
    using k(1) unfolding ensureCacheLimits_def getCacheStats_ok[OF assms(1,2)] w1_def
    by (simp add: k(2) comp_def min_absorb2 split: prod.splits sum.splits)
  with k show ?thesis by blast
qed

subsection \<open>The limits after a pass\<close>

lemma length_blob [simp]: "length (blob n) = n"
  by (simp add: blob_def)

lemma ensureCacheLimits_result:
  assumes "reads_succeed e" "deletes_succeed e" "distinct (map fname (entries w))"
  defines "ord \<equiv> sort_key fmtime (cached w)"
  shows "\<exists>k\<le>length ord.
           length (drop k ord) \<le> MAX_FILES
         \<and> sum_list (map fsize (drop k ord)) \<le> MAX_CACHE_SIZE_BYTES
         \<and> (\<forall>i<k. \<not> (length (drop i ord) \<le> MAX_FILES
                      \<and> sum_list (map fsize (drop i ord)) \<le> MAX_CACHE_SIZE_BYTES))
         \<and> snd (ensureCacheLimits e w) =
             w\<lparr>entries := filter (\<lambda>f. fname f \<notin> set (map fname (take k ord))) (entries w),
               calls := calls w @ [Readdir, Readdir] @ map (\<lambda>f. Stat (fname f)) (cached w)
                        @ map (\<lambda>f. DeleteFile (fname f)) (take k ord)\<rparr>"
proof (cases "cached_size w > MAX_CACHE_SIZE_BYTES \<or> length (cached w) > MAX_FILES")
  case False
  then have "length (drop 0 ord) \<le> MAX_FILES
         \<and> sum_list (map fsize (drop 0 ord)) \<le> MAX_CACHE_SIZE_BYTES"
    by (simp add: ord_def sum_list_sort_key cached_size_def)
  moreover from ensureCacheLimits_plan[OF assms(1,3)] False
  have "snd (ensureCacheLimits e w) =
      w\<lparr>calls := calls w @ [Readdir, Readdir] @ map (\<lambda>f. Stat (fname f)) (cached w)\<rparr>"
    by auto
  ultimately show ?thesis
    by (intro exI[of _ 0]) simp
next
  case True
  define w1 where "w1 = w\<lparr>calls := calls w @ [Readdir, Readdir] @ map (\<lambda>f. Stat (fname f)) (cached w)\<rparr>"
  from ensureCacheLimits_plan[OF assms(1,3)] True
  obtain k where k: "k \<le> length ord" "length ord - MAX_FILES \<le> k"
      "sum_list (map fsize (drop k ord)) \<le> MAX_CACHE_SIZE_BYTES"
      "\<forall>i. length ord - MAX_FILES \<le> i \<and> i < k \<longrightarrow>
            MAX_CACHE_SIZE_BYTES < sum_list (map fsize (drop i ord))"
      "ensureCacheLimits e w =
         (case delete_each e (map fname (take k ord)) w1 of
            (Inl err, w2) \<Rightarrow> (CleanupFailed err, w2)
          | (Inr _, w2) \<Rightarrow> (Deleted k, w2))"
    unfolding ord_def w1_def by auto
  have dn: "distinct (map fname (cached w))"
    using assms(3) by (simp add: cached_def distinct_map_filter)
  have "distinct (map fname ord)"
    using dn by (simp add: ord_def distinct_map_sort_key)
  then have d1: "distinct (map fname (take k ord))"
    by (simp add: take_map[symmetric])
  have "set (take k ord) \<subseteq> set (entries w1)"
    by (auto simp: ord_def w1_def cached_def dest!: in_set_takeD)
  then have d2: "set (map fname (take k ord)) \<subseteq> fname ` set (entries w1)"
    by auto
  from assms(2) have d3: "\<forall>n. \<forall>p\<in>set (map fname (take k ord)). \<not> faults e n (DeleteFile p)"
    by (simp add: deletes_succeed_def)
  have res: "snd (ensureCacheLimits e w) =
      w\<lparr>entries := filter (\<lambda>f. fname f \<notin> set (map fname (take k ord))) (entries w),
        calls := calls w @ [Readdir, Readdir] @ map (\<lambda>f. Stat (fname f)) (cached w)
                 @ map (\<lambda>f. DeleteFile (fname f)) (take k ord)\<rparr>"
    unfolding k(5) delete_each_ok[OF d3 d1 d2]
    by (simp add: w1_def comp_def)
  have "length (drop k ord) \<le> MAX_FILES"
    using k(2) by simp
  moreover have "\<forall>i<k. \<not> (length (drop i ord) \<le> MAX_FILES
                      \<and> sum_list (map fsize (drop i ord)) \<le> MAX_CACHE_SIZE_BYTES)"
  proof (intro allI impI)
    fix i assume "i < k"
    show "\<not> (length (drop i ord) \<le> MAX_FILES
                      \<and> sum_list (map fsize (drop i ord)) \<le> MAX_CACHE_SIZE_BYTES)"
    proof (cases "length ord - MAX_FILES \<le> i")
      case True
      with \<open>i < k\<close> k(4) show ?thesis by (simp add: not_le)
    next
      case False
      then have "MAX_FILES < length (drop i ord)" by simp
      then show ?thesis by linarith
    qed
  qed
  ultimately show ?thesis
    using k(1,3) res by blast
qed

lemma cached_rest:
  fixes k cs
  assumes "distinct (map fname (entries w))"
  defines "ord \<equiv> sort_key fmtime (cached w)"
  defines "w' \<equiv> w\<lparr>entries := filter (\<lambda>f. fname f \<notin> set (map fname (take k ord))) (entries w),
                    calls := cs\<rparr>"
  shows "cached_size w' = sum_list (map fsize (drop k ord))"
    and "length (cached w') = length (drop k ord)"
proof -
  have dn: "distinct (map fname (cached w))"
    using assms(1) by (simp add: cached_def distinct_map_filter)
  then have dc: "distinct (cached w)" by (simp add: distinct_map)
  have c': "cached w' = filter (\<lambda>f. fname f \<notin> set (map fname (take k ord))) (cached w)"
    unfolding w'_def by (rule cached_after_delete)
  have s: "set (cached w') = set (drop k ord)"
    unfolding c' by (rule rest_after_prefix[OF dn]) (simp_all add: ord_def dc)
  have d1: "distinct (cached w')" unfolding c' using dc by simp
  have d2: "distinct (drop k ord)" using dc by (simp add: ord_def)
  show "cached_size w' = sum_list (map fsize (drop k ord))"
    unfolding cached_size_def by (rule same_set_sum(1)[OF d1 d2 s])
  show "length (cached w') = length (drop k ord)"
    by (rule same_set_sum(2)[OF d1 d2 s])
qed

text \<open>
  C3. After \<open>ensureCacheLimits\<close> has returned, the files of the cache that are not temp
  files have a total size of at most 2 GiB and are at most 50, whatever the sizes and
  modification times of the files before: in a directory whose names are distinct and in
  an environment in which the platform rejects no listing, no \<open>stat\<close> and no deletion.
\<close>

theorem ensureCacheLimits_bounds:
  assumes "reads_succeed e" "deletes_succeed e" "distinct (map fname (entries w))"
  shows "cached_size (snd (ensureCacheLimits e w)) \<le> MAX_CACHE_SIZE_BYTES
       \<and> length (cached (snd (ensureCacheLimits e w))) \<le> MAX_FILES"
proof -
  from ensureCacheLimits_result[OF assms] obtain k where
    k: "length (drop k (sort_key fmtime (cached w))) \<le> MAX_FILES"
       "sum_list (map fsize (drop k (sort_key fmtime (cached w)))) \<le> MAX_CACHE_SIZE_BYTES"
       "snd (ensureCacheLimits e w) =
             w\<lparr>entries := filter (\<lambda>f. fname f \<notin> set (map fname (take k (sort_key fmtime (cached w))))) (entries w),
               calls := calls w @ [Readdir, Readdir] @ map (\<lambda>f. Stat (fname f)) (cached w)
                        @ map (\<lambda>f. DeleteFile (fname f)) (take k (sort_key fmtime (cached w)))\<rparr>"
    by blast
  show ?thesis
    unfolding k(3) cached_rest[OF assms(3)] using k(1,2) by simp
qed

lemma quiet_reads [simp]: "reads_succeed quiet" and quiet_deletes [simp]: "deletes_succeed quiet"
  by (simp_all add: reads_succeed_def deletes_succeed_def quiet_def)

theorem ensureCacheLimits_bounds_witness:
  "cached_size (snd (ensureCacheLimits quiet cache3)) \<le> MAX_CACHE_SIZE_BYTES
   \<and> length (cached (snd (ensureCacheLimits quiet cache3))) \<le> MAX_FILES"
  using ensureCacheLimits_bounds [of quiet cache3]
  by (simp add: cache3_def)

subsection \<open>Which files a pass removes\<close>

lemma sorted_hd_least:
  "sorted (map k xs) \<Longrightarrow> x \<in> set xs \<Longrightarrow> k (hd xs) \<le> k x" for k :: "'a \<Rightarrow> int"
  by (cases xs) auto

lemma sum_list_const:
  "\<forall>x\<in>set xs. f x = c \<Longrightarrow> sum_list (map f xs) = int (length xs) * c" for c :: int
  by (induction xs) (auto simp: algebra_simps)

text \<open>
  C7. In a directory with distinct names, the platform rejecting nothing, a pass removes
  the first \<open>k\<close> cached files in the order of their modification times, oldest first,
  and deletes them in that order, where \<open>k\<close> is the least number for which what is left
  is within both limits: the count limit first (the oldest \<open>length - 50\<close> files), then
  further oldest files until the size limit holds. For 51 cached files of 1 MiB each,
  \<open>k = 1\<close>: the file removed is the one with the least modification time, and 50 are
  left.
\<close>

theorem ensureCacheLimits_oldest_first:
  assumes "reads_succeed e" "deletes_succeed e" "distinct (map fname (entries w))"
  shows "\<exists>k. let ord = sort_key fmtime (cached w);
                 w' = snd (ensureCacheLimits e w);
                 within = (\<lambda>i. length (drop i ord) \<le> MAX_FILES
                               \<and> sum_list (map fsize (drop i ord)) \<le> MAX_CACHE_SIZE_BYTES)
             in k \<le> length ord \<and> within k \<and> (\<forall>i<k. \<not> within i)
              \<and> entries w' = filter (\<lambda>f. fname f \<notin> set (map fname (take k ord))) (entries w)
              \<and> calls w' = calls w @ [Readdir, Readdir] @ map (\<lambda>f. Stat (fname f)) (cached w)
                              @ map (\<lambda>f. DeleteFile (fname f)) (take k ord)
              \<and> (length (cached w) = 51 \<and> (\<forall>f\<in>set (cached w). fsize f = 1024 * 1024)
                   \<longrightarrow> k = 1 \<and> length (cached w') = 50
                     \<and> (\<forall>f\<in>set (cached w). fmtime (hd ord) \<le> fmtime f))"
proof -
  define ord where "ord = sort_key fmtime (cached w)"
  define within where "within = (\<lambda>i. length (drop i ord) \<le> MAX_FILES
                               \<and> sum_list (map fsize (drop i ord)) \<le> MAX_CACHE_SIZE_BYTES)"
  define w' where "w' = snd (ensureCacheLimits e w)"
  from ensureCacheLimits_result[OF assms] obtain k where
    k: "k \<le> length ord" "within k" "\<forall>i<k. \<not> within i"
       "w' = w\<lparr>entries := filter (\<lambda>f. fname f \<notin> set (map fname (take k ord))) (entries w),
               calls := calls w @ [Readdir, Readdir] @ map (\<lambda>f. Stat (fname f)) (cached w)
                        @ map (\<lambda>f. DeleteFile (fname f)) (take k ord)\<rparr>"
    unfolding ord_def within_def w'_def by blast
  have scen: "k = 1 \<and> length (cached w') = 50 \<and> (\<forall>f\<in>set (cached w). fmtime (hd ord) \<le> fmtime f)"
    if len: "length (cached w) = 51" and sz: "\<forall>f\<in>set (cached w). fsize f = 1024 * 1024"
  proof -
    have lo: "length ord = 51" using len by (simp add: ord_def)
    have "\<forall>f\<in>set (drop 1 ord). fsize f = 1024 * 1024"
      using sz by (auto simp: ord_def dest!: in_set_dropD)
    then have "sum_list (map fsize (drop 1 ord)) = int (length (drop 1 ord)) * (1024 * 1024)"
      by (rule sum_list_const)
    then have "sum_list (map fsize (drop 1 ord)) = 50 * (1024 * 1024)"
      using lo by simp
    then have w1: "within 1"
      using lo by (simp add: within_def MAX_FILES_def MAX_CACHE_SIZE_BYTES_def)
    have w0: "\<not> within 0"
      using lo by (simp add: within_def MAX_FILES_def)
    from w1 k(3) have "\<not> 1 < k" by blast
    moreover from w0 k(2) have "k \<noteq> 0" by (cases k) auto
    ultimately have k1: "k = 1" by arith
    have "length (cached w') = length (drop k ord)"
      unfolding k(4) ord_def by (rule cached_rest(2)[OF assms(3)])
    with k1 lo have l50: "length (cached w') = 50" by simp
    have "sorted (map fmtime ord)" by (simp add: ord_def)
    then have "\<forall>f\<in>set (cached w). fmtime (hd ord) \<le> fmtime f"
      using sorted_hd_least[of fmtime ord] by (simp add: ord_def)
    with k1 l50 show ?thesis by blast
  qed
  have fields: "entries w' = filter (\<lambda>f. fname f \<notin> set (map fname (take k ord))) (entries w)"
      "calls w' = calls w @ [Readdir, Readdir] @ map (\<lambda>f. Stat (fname f)) (cached w)
                              @ map (\<lambda>f. DeleteFile (fname f)) (take k ord)"
    by (simp_all add: k(4))
  have "k \<le> length ord \<and> within k \<and> (\<forall>i<k. \<not> within i)
              \<and> entries w' = filter (\<lambda>f. fname f \<notin> set (map fname (take k ord))) (entries w)
              \<and> calls w' = calls w @ [Readdir, Readdir] @ map (\<lambda>f. Stat (fname f)) (cached w)
                              @ map (\<lambda>f. DeleteFile (fname f)) (take k ord)
              \<and> (length (cached w) = 51 \<and> (\<forall>f\<in>set (cached w). fsize f = 1024 * 1024)
                   \<longrightarrow> k = 1 \<and> length (cached w') = 50
                     \<and> (\<forall>f\<in>set (cached w). fmtime (hd ord) \<le> fmtime f))"
    using k(1,2,3) scen fields by blast
  then show ?thesis
    unfolding Let_def ord_def within_def w'_def by (rule exI)
qed

lemma chapter_file_not_temp [simp]: "\<not> endsWith (chapter_file i) ''.tmp''"
  by (simp add: endsWith_def chapter_file_def)

lemma chapter_file_inj [simp]: "chapter_file i = chapter_file j \<longleftrightarrow> i = j"
  by (simp add: chapter_file_def)

lemma cache51_cached: "cached cache51 = entries cache51"
  by (simp add: cached_def cache51_def filter_map comp_def)

lemma cache51_distinct: "distinct (map fname (entries cache51))"
  by (simp add: cache51_def comp_def distinct_map inj_on_def)

theorem ensureCacheLimits_oldest_first_witness:
  "length (cached cache51) = 51 \<and> length (cached (snd (ensureCacheLimits quiet cache51))) = 50
   \<and> entries (snd (ensureCacheLimits quiet cache51))
       = filter (\<lambda>f. fname f \<notin> set (map fname (take 1 (sort_key fmtime (cached cache51)))))
                (entries cache51)"
proof -
  have len: "length (cached cache51) = 51"
    by (simp add: cache51_cached) (simp add: cache51_def)
  have sz: "\<forall>f\<in>set (cached cache51). fsize f = 1024 * 1024"
    by (simp add: cache51_cached) (simp add: cache51_def fsize_def)
  from ensureCacheLimits_oldest_first [OF quiet_reads quiet_deletes cache51_distinct]
  show ?thesis
    using len sz unfolding Let_def by auto
qed

subsection \<open>A rejected deletion\<close>

lemmas cache_simps = ensureCacheLimits_def getCacheStats_def readdir_def mkdir_def stat_def plugin_def
  deleteFile_def lookup_def endsWith_def filesToDelete_def fsize_def MAX_CACHE_SIZE_BYTES_def MAX_FILES_def

lemma filesToDelete_within:
  assumes "\<not> (stats_size st > MAX_CACHE_SIZE_BYTES \<or> length (stats_files st) > MAX_FILES)"
  shows "filesToDelete st = []"
proof -
  have "select_by_size fs (stats_size st) = []" for fs
    using assms by (cases fs) auto
  then show ?thesis
    using assms by (simp add: filesToDelete_def Let_def)
qed

text \<open>
  C5, as the code behaves. The deletion loop has no \<open>try\<close> of its own. When the platform
  rejects the deletion of a selected file, the loop is left: the files selected before it
  are deleted, the file itself and the files selected after it stay, no further
  \<open>deleteFile\<close> is called, and the one \<open>catch\<close> of \<open>ensureCacheLimits\<close> logs the
  error. \<open>ensureCacheLimits\<close> itself returns normally.
\<close>

theorem ensureCacheLimits_delete_rejected:
  assumes "distinct (map fname (entries w))"
      and "\<forall>n c. faults e n c \<longleftrightarrow> c = DeleteFile x"
      and "map name (filesToDelete (fst (getCacheStats e w))) = pre @ x # post"
  shows "ensureCacheLimits e w =
           (CleanupFailed IOError,
            w\<lparr>entries := filter (\<lambda>f. fname f \<notin> set pre) (entries w),
              calls := calls w @ [Readdir, Readdir] @ map (\<lambda>f. Stat (fname f)) (cached w)
                       @ map DeleteFile (pre @ [x])\<rparr>)"
proof -
  from assms(2) have rs: "reads_succeed e"
    by (simp add: reads_succeed_def)
  define st where "st = \<lparr>stats_size = cached_size w, stats_files = map (info e) (cached w)\<rparr>"
  define w1 where "w1 = w\<lparr>calls := calls w @ [Readdir, Readdir] @ map (\<lambda>f. Stat (fname f)) (cached w)\<rparr>"
  have gs: "getCacheStats e w = (st, w1)"
    unfolding st_def w1_def by (rule getCacheStats_ok[OF rs assms(1)])
  with assms(3) have sel: "map name (filesToDelete st) = pre @ x # post" by simp
  then have "filesToDelete st \<noteq> []" by auto
  then have trig: "stats_size st > MAX_CACHE_SIZE_BYTES \<or> length (stats_files st) > MAX_FILES"
    using filesToDelete_within by blast
  obtain k where k: "filesToDelete st = map (info e) (take k (sort_key fmtime (cached w)))"
    using filesToDelete_cached[of w e] unfolding st_def by blast
  have dn: "distinct (map fname (cached w))"
    using assms(1) by (simp add: cached_def distinct_map_filter)
  have names: "map name (filesToDelete st) = map fname (take k (sort_key fmtime (cached w)))"
    by (simp add: k comp_def)
  have "distinct (map fname (sort_key fmtime (cached w)))"
    using dn by (simp add: distinct_map_sort_key)
  then have "distinct (map name (filesToDelete st))"
    unfolding names by (simp add: take_map[symmetric])
  with sel have dpre: "distinct pre" and xpre: "x \<notin> set pre" by auto
  have "set (map name (filesToDelete st)) \<subseteq> fname ` set (entries w1)"
    unfolding names by (auto simp: w1_def cached_def dest!: in_set_takeD)
  with sel have sub: "set pre \<subseteq> fname ` set (entries w1)" by auto
  from assms(2) xpre have ok: "\<forall>n. \<forall>p\<in>set pre. \<not> faults e n (DeleteFile p)" by auto
  from assms(2) have bad: "\<forall>n. faults e n (DeleteFile x)" by simp
  have "delete_each e (pre @ x # post) w1 =
           (Inl IOError, w1\<lparr>entries := filter (\<lambda>f. fname f \<notin> set pre) (entries w1),
                           calls := calls w1 @ map DeleteFile (pre @ [x])\<rparr>)"
    by (rule delete_each_rejected[OF ok bad dpre sub])
  then show ?thesis
    using trig sel by (simp add: ensureCacheLimits_def gs w1_def)
qed

theorem ensureCacheLimits_delete_rejected_witness:
  "ensureCacheLimits locked_a cache3 =
     (CleanupFailed IOError,
      cache3\<lparr>calls := [Readdir, Readdir, Stat ''b.mp3'', Stat ''a.mp3'', Stat ''c.mp3'',
                        DeleteFile ''a.mp3'']\<rparr>)"
proof -
  have d: "distinct (map fname (entries cache3))"
    by (simp add: cache3_def)
  have f: "\<forall>n c. faults locked_a n c \<longleftrightarrow> c = DeleteFile ''a.mp3''"
    by (simp add: locked_a_def)
  have s: "map name (filesToDelete (fst (getCacheStats locked_a cache3))) = [] @ ''a.mp3'' # [''b.mp3'']"
    by (simp add: cache_simps locked_a_def quiet_def cache3_def)
  have c: "cached cache3 = take 3 (entries cache3)"
    by (simp add: cached_def cache3_def endsWith_def)
  from ensureCacheLimits_delete_rejected [OF d f s] show ?thesis
    by (simp add: c) (simp add: cache3_def)
qed

text \<open>
  C5, as stated, fails. Three cached files of 2 GiB, 2 GiB and 1 GiB: the pass selects
  \<open>a.mp3\<close> and \<open>b.mp3\<close>, and removes both when nothing is rejected. When the
  deletion of \<open>a.mp3\<close> is rejected, \<open>b.mp3\<close> is not removed either.
\<close>

theorem ensureCacheLimits_rejected_counterexample:
  "map fname (entries (snd (ensureCacheLimits quiet cache3))) = [''c.mp3'', ''d.mp3.tmp'']
   \<and> fst (ensureCacheLimits locked_a cache3) = CleanupFailed IOError
   \<and> map fname (entries (snd (ensureCacheLimits locked_a cache3)))
       = [''b.mp3'', ''a.mp3'', ''c.mp3'', ''d.mp3.tmp'']"
  by (simp add: cache_simps quiet_def locked_a_def cache3_def)

subsection \<open>\<open>getCachedFile\<close>\<close>

text \<open>
  C9. For a cached file that exists, when the platform rejects neither the \<open>stat\<close> nor
  the deletion: with a size other than zero \<open>getCachedFile\<close> returns the URI of the file
  and leaves the cache as it is; with size zero it returns \<open>null\<close> and the file is
  removed from the cache, the other files staying.
\<close>

theorem getCachedFile_stat:
  assumes "\<not> faults e (length (calls w)) (Stat fileName)"
      and "\<not> faults e (Suc (length (calls w))) (DeleteFile fileName)"
      and "lookup w fileName = Some f"
  shows "case getCachedFile e w fileName of
           (r, w') \<Rightarrow>
             (fsize f \<noteq> 0 \<longrightarrow> r = Some (uri_of e fileName) \<and> entries w' = entries w) \<and>
             (fsize f = 0 \<longrightarrow> r = None \<and> lookup w' fileName = None \<and>
                entries w' = filter (\<lambda>g. fname g \<noteq> fileName) (entries w))"
  using assms
  by (simp add: getCachedFile_def stat_def deleteFile_def plugin_def lookup_def find_None_iff)

theorem getCachedFile_stat_witness:
  "fst (getCachedFile quiet cache2 ''a.mp3'') = Some ''file:///media_cache/a.mp3''
   \<and> fst (getCachedFile quiet cache2 ''b.mp3'') = None
   \<and> lookup (snd (getCachedFile quiet cache2 ''b.mp3'')) ''b.mp3'' = None"
  using getCachedFile_stat [of quiet cache2 "''a.mp3''" "\<lparr>fname = ''a.mp3'', fmtime = 1, fdata = ''abc''\<rparr>"]
        getCachedFile_stat [of quiet cache2 "''b.mp3''" "\<lparr>fname = ''b.mp3'', fmtime = 2, fdata = []\<rparr>"]
  by (simp add: quiet_def cache2_def lookup_def fsize_def split: prod.splits)

section \<open>Properties of the downloader\<close>

subsection \<open>Files after a plugin call\<close>





lemma lookup_entries [simp]: "lookup (w\<lparr>entries := fs\<rparr>) p = find (\<lambda>f. fname f = p) fs"
  by (simp add: lookup_def)




declare chunk_loop.simps [simp del] chunk_ranges.simps [simp del]




subsection \<open>The ranges and the data of a chunked transfer\<close>









subsection \<open>The stages of a download\<close>

lemma temp_differs [simp]: "fileName @ ''.tmp'' \<noteq> fileName" "fileName \<noteq> fileName @ ''.tmp''"
  by (auto dest: arg_cong[where f = length])




















subsection \<open>Failing steps\<close>





lemma sound_entries [simp]: "sound e start (w\<lparr>entries := fs\<rparr>) = sound e start w"
  by (simp add: sound_def)

















subsection \<open>A failed download\<close>


lemmas download_simps = downloadToCache_def download_try_def ensure_dir_def transfer_def
  whole_transfer_def promote_def http_head_def http_get_def readdir_def mkdir_def deleteFile_def
  writeFile_def rename_def getUri_def plugin_def lookup_def put_def



text \<open>
  The rejected \<open>getUri\<close>: the call throws after the rename, the cleanup finds no temp
  file, and \<open>a.mp3\<close> holds the new data \<open>xyz\<close> in place of the earlier \<open>abc\<close>.
\<close>

lemma downloadToCache_getUri_rejected:
  "downloadToCache lost_uri cache2 stream_url ''a.mp3''
     = (Inl IOError,
        \<lparr>entries = [\<lparr>fname = ''b.mp3'', fmtime = 2, fdata = []\<rparr>,
                    \<lparr>fname = ''a.mp3'', fmtime = 4, fdata = ''xyz''\<rparr>],
         calls = [Readdir, HttpHead stream_url, DeleteFile ''a.mp3.tmp'',
                  HttpGet stream_url None, WriteFile ''a.mp3.tmp'' ''xyz'',
                  Rename ''a.mp3.tmp'' ''a.mp3'', LaunchEnsureCacheLimits, GetUri ''a.mp3'',
                  DeleteFile ''a.mp3.tmp'']\<rparr>)"
  by (simp add: download_simps lost_uri_def fresh_server_def quiet_def cache2_def)

subsection \<open>Chunked and whole transfers\<close>



end
